theory Spec2Isabelle
  imports Complex_Main "HOL-Library.Monad_Syntax" "HOL-Library.Multiset"
begin

section \<open>Geometry: three- and two-component vectors\<close>

text \<open>
  \<open>Vector3\<close> and \<open>Vector2\<close> are the coordinate structs the source computes with.
  Coordinates are real numbers: the development reads the arithmetic of the program over
  the reals. Where the program would produce a value that is not a real number (a
  division by zero, a pole of \<open>pow\<close>) or touch memory out of range, the model
  returns \<open>None\<close>.
\<close>

datatype Vector3 = Vector3 (vec_x: real) (vec_y: real) (vec_z: real)

datatype Vector2 = Vector2 (vec2_x: real) (vec2_y: real)

instantiation Vector3 :: ab_group_add
begin

definition zero_Vector3 :: Vector3 where
  "zero_Vector3 = Vector3 0 0 0"

definition plus_Vector3 :: "Vector3 \<Rightarrow> Vector3 \<Rightarrow> Vector3" where
  "plus_Vector3 a b = Vector3 (vec_x a + vec_x b) (vec_y a + vec_y b) (vec_z a + vec_z b)"

definition minus_Vector3 :: "Vector3 \<Rightarrow> Vector3 \<Rightarrow> Vector3" where
  "minus_Vector3 a b = Vector3 (vec_x a - vec_x b) (vec_y a - vec_y b) (vec_z a - vec_z b)"

definition uminus_Vector3 :: "Vector3 \<Rightarrow> Vector3" where
  "uminus_Vector3 a = Vector3 (- vec_x a) (- vec_y a) (- vec_z a)"

instance
  by standard
    (simp_all add: zero_Vector3_def plus_Vector3_def minus_Vector3_def uminus_Vector3_def)

end

instantiation Vector3 :: real_vector
begin

definition scaleR_Vector3 :: "real \<Rightarrow> Vector3 \<Rightarrow> Vector3" where
  "scaleR_Vector3 s v = Vector3 (s * vec_x v) (s * vec_y v) (s * vec_z v)"

instance
  by standard
    (simp_all add: scaleR_Vector3_def plus_Vector3_def zero_Vector3_def algebra_simps)

end

text \<open>\<open>v / s\<close> of the source, a vector divided by a scalar.\<close>

definition vdiv :: "Vector3 \<Rightarrow> real \<Rightarrow> Vector3" where
  "vdiv v s = Vector3 (vec_x v / s) (vec_y v / s) (vec_z v / s)"

text \<open>\<open>norm(v)\<close>: the Euclidean length.\<close>

definition norm3 :: "Vector3 \<Rightarrow> real" where
  "norm3 v = sqrt ((vec_x v)\<^sup>2 + (vec_y v)\<^sup>2 + (vec_z v)\<^sup>2)"

text \<open>\<open>fmax\<close> of two reals.\<close>

definition fmax :: "real \<Rightarrow> real \<Rightarrow> real" where
  "fmax a b = (if a < b then b else a)"

section \<open>The hierarchy and the curve: external collaborators\<close>

text \<open>
  A \<open>BVHNode3D*\<close> is an address; the hierarchy is the store that maps an address to
  the node it points to, and comparing two pointers is comparing two addresses. The class
  \<open>BVHNode3D\<close> is declared outside the translation unit: the record holds the
  attributes the code reads through accessors (\<open>NumElements()\<close>, \<open>IsLeaf()\<close>,
  \<open>VertexIndex()\<close>, \<open>viewspaceBounds(p)\<close>, and \<open>clusterMassVector\<close> for what
  \<open>fillClusterMassVector(w)\<close> writes into \<open>w\<close>) and as public fields. Nothing is
  assumed of their values: a store may hold cycles, shared children, or counts that
  differ from the number of indices. Each theorem states the part of the node contract
  it relies on. The three scratch fields \<open>V_I\<close>, \<open>B_I\<close>, \<open>aIJ_VJ\<close> of a node
  are the only fields the code writes; they live in a store of their own
  (\<open>scratch\<close>, below). An element count is the \<open>int\<close> of the source, 32 bits
  wide: the record holds it as an integer, and where the source computes with two counts
  (the sum in \<open>isPairSmallEnough\<close>) the wrap-around is written out. An index into an
  array is a natural number, so that an index is out of range only by being too large.
\<close>

type_synonym ptr = nat

record BVHNode3D =
  NumElements :: int
  children :: "ptr list"
  centerOfMass :: Vector3
  totalMass :: real
  clusterIndices :: "nat list"
  clusterMassVector :: "real list"
  IsLeaf :: bool
  VertexIndex :: nat
  viewspaceBounds :: "Vector3 \<Rightarrow> Vector2"
  fullMasses :: "real list"

type_synonym hierarchy = "ptr \<Rightarrow> BVHNode3D"

text \<open>
  The curve collaborator. A point handle has type \<open>'p\<close>; \<open>==\<close> on handles is
  equality, \<open>p.Next()\<close> and \<open>p.Position()\<close> are functions of the handle.
\<close>

record 'p PolyCurveGroup =
  NumVertices :: nat
  GetCurvePoint :: "nat \<Rightarrow> 'p"
  Next :: "'p \<Rightarrow> 'p"
  Position :: "'p \<Rightarrow> Vector3"

section \<open>The block cluster tree\<close>

record ClusterPair =
  cluster1 :: ptr
  cluster2 :: ptr

datatype BlockTreeMode = MatrixOnly

text \<open>
  The fields of the class. The curve and the hierarchy are owned by the caller and are
  passed to every operation.
\<close>

record BlockClusterTree =
  alpha :: real
  beta :: real
  separationCoeff :: real
  epsilon :: real
  tree_root :: ptr
  nVerts :: nat
  constraintsSet :: bool
  mode :: BlockTreeMode
  admissiblePairs :: "ClusterPair list"
  inadmissiblePairs :: "ClusterPair list"
  unresolvedPairs :: "ClusterPair list"

subsection \<open>Classification of cluster pairs\<close>

text \<open>
  \<open>s1 + s2\<close> on two \<open>int\<close>s of 32 bits, as the compiled program computes it: the
  sum in two's complement, which wraps around outside the range from \<open>-2^31\<close> to
  \<open>2^31 - 1\<close>.
\<close>

definition int_plus :: "int \<Rightarrow> int \<Rightarrow> int" where
  "int_plus a b = (a + b + 2 ^ 31) mod 2 ^ 32 - 2 ^ 31"

definition isPairSmallEnough :: "hierarchy \<Rightarrow> ClusterPair \<Rightarrow> bool" where
  "isPairSmallEnough H pair =
     (let s1 = NumElements (H (cluster1 pair));
          s2 = NumElements (H (cluster2 pair))
      in s1 \<le> 1 \<or> s2 \<le> 1 \<or> int_plus s1 s2 \<le> 8)"

definition isPairAdmissible :: "hierarchy \<Rightarrow> ClusterPair \<Rightarrow> real \<Rightarrow> bool" where
  "isPairAdmissible H pair theta =
     (if cluster1 pair = cluster2 pair then False
      else
        (let c1spread = viewspaceBounds (H (cluster1 pair)) (centerOfMass (H (cluster2 pair)));
             c2spread = viewspaceBounds (H (cluster2 pair)) (centerOfMass (H (cluster1 pair)));
             maxRadial = fmax (vec2_x c1spread) (vec2_x c2spread);
             maxLinear = fmax (vec2_y c1spread) (vec2_y c2spread);
             distance = norm3 (centerOfMass (H (cluster1 pair)) - centerOfMass (H (cluster2 pair)))
         in fmax maxRadial maxLinear < theta * distance))"

text \<open>
  The two nested loops of the subdivision branch: the pairs of a child of side 1 with a
  child of side 2, in the order they are pushed.
\<close>

definition childPairs :: "hierarchy \<Rightarrow> ClusterPair \<Rightarrow> ClusterPair list" where
  "childPairs H pair =
     concat (map (\<lambda>ci. map (\<lambda>cj. \<lparr>cluster1 = ci, cluster2 = cj\<rparr>) (children (H (cluster2 pair))))
                 (children (H (cluster1 pair))))"

text \<open>
  The body of the loop of \<open>splitInadmissibleNodes\<close> for one pair of the worklist. The
  state is the tree (whose two collections grow) and the local \<open>nextPairs\<close>.
\<close>

definition splitPair ::
  "hierarchy \<Rightarrow> ClusterPair \<Rightarrow> BlockClusterTree \<times> ClusterPair list \<Rightarrow>
   BlockClusterTree \<times> ClusterPair list" where
  "splitPair H pair st =
     (let T = fst st; nextPairs = snd st in
      if NumElements (H (cluster1 pair)) = 0 \<or> NumElements (H (cluster2 pair)) = 0
        then (T, nextPairs)
      else if NumElements (H (cluster1 pair)) = 1 \<and> NumElements (H (cluster2 pair)) = 1
        then (T\<lparr>inadmissiblePairs := inadmissiblePairs T @ [pair]\<rparr>, nextPairs)
      else if isPairAdmissible H pair (separationCoeff T)
        then (T\<lparr>admissiblePairs := admissiblePairs T @ [pair]\<rparr>, nextPairs)
      else if isPairSmallEnough H pair
        then (T\<lparr>inadmissiblePairs := inadmissiblePairs T @ [pair]\<rparr>, nextPairs)
      else (T, nextPairs @ childPairs H pair))"

definition splitInadmissibleNodes :: "hierarchy \<Rightarrow> BlockClusterTree \<Rightarrow> BlockClusterTree" where
  "splitInadmissibleNodes H T =
     (let st = fold (splitPair H) (unresolvedPairs T) (T, [])
      in (fst st)\<lparr>unresolvedPairs := snd st\<rparr>)"

text \<open>
  The loop of the constructor, \<open>while (unresolvedPairs.size() > 0)\<close>. It need not end
  (a store can hold a node that is its own child), so it is a partial function: \<open>None\<close>
  is the loop that never leaves.
\<close>

partial_function (option) resolvePairs :: "hierarchy \<Rightarrow> BlockClusterTree \<Rightarrow> BlockClusterTree option"
  where
  "resolvePairs H T =
     (if length (unresolvedPairs T) > 0 then resolvePairs H (splitInadmissibleNodes H T)
      else Some T)"

text \<open>The constructor. The curve enters only through its number of vertices.\<close>

definition newBlockClusterTree ::
  "hierarchy \<Rightarrow> nat \<Rightarrow> ptr \<Rightarrow> real \<Rightarrow> real \<Rightarrow> real \<Rightarrow> real \<Rightarrow> BlockClusterTree option" where
  "newBlockClusterTree H numVertices tree sepCoeff a b e =
     map_option (\<lambda>T. T\<lparr>mode := MatrixOnly\<rparr>)
       (resolvePairs H
          \<lparr>alpha = a, beta = b, separationCoeff = sepCoeff, epsilon = e, tree_root = tree,
           nVerts = numVertices, constraintsSet = False, mode = MatrixOnly,
           admissiblePairs = [], inadmissiblePairs = [],
           unresolvedPairs = [\<lparr>cluster1 = tree, cluster2 = tree\<rparr>]\<rparr>)"

subsection \<open>Loops whose body can fail; vectors and matrices\<close>

text \<open>
  A \<open>for\<close> loop over a list whose body may fail: the state is threaded through, and
  the first failure ends the loop.
\<close>

fun foldM :: "('a \<Rightarrow> 's \<Rightarrow> 's option) \<Rightarrow> 'a list \<Rightarrow> 's \<Rightarrow> 's option" where
  "foldM f [] s = Some s"
| "foldM f (a # as) s = Option.bind (f a s) (foldM f as)"

text \<open>The loop is monotone in its body, so that a recursive call may stand inside it.\<close>

lemma foldM_mono [partial_function_mono]:
  assumes "\<And>a s. mono_option (\<lambda>g. F g a s)"
  shows "mono_option (\<lambda>g. foldM (F g) as s)"
proof (induction as arbitrary: s)
  case Nil
  show ?case by (simp add: option.const_mono)
next
  case (Cons a as)
  show ?case
    unfolding foldM.simps
    by (rule bind_mono) (rule assms, rule Cons.IH)
qed

type_synonym VectorXd = "real list"

type_synonym MatrixXd = "Vector3 list"

text \<open>
  Reading \<open>v(i)\<close> or \<open>v[i]\<close>. Out of range the program has no defined behaviour
  (an Eigen assertion, an unchecked \<open>std::vector\<close> access): \<open>None\<close>.
\<close>

definition coeff :: "'a list \<Rightarrow> nat \<Rightarrow> 'a option" where
  "coeff v i = (if i < length v then Some (v ! i) else None)"

text \<open>\<open>SelectRow\<close> and \<open>AddToRow\<close> of \<open>utils.h\<close>: row \<open>i\<close> of an N x 3 matrix.\<close>

definition SelectRow :: "MatrixXd \<Rightarrow> nat \<Rightarrow> Vector3 option" where
  "SelectRow A i = coeff A i"

definition AddToRow :: "MatrixXd \<Rightarrow> nat \<Rightarrow> Vector3 \<Rightarrow> MatrixXd option" where
  "AddToRow A i v = (if i < length A then Some (A[i := A ! i + v]) else None)"

text \<open>
  \<open>pow(x, y)\<close> for the bases the program passes, which are norms: \<open>pow(x, 0) = 1\<close>,
  \<open>pow(0, y) = 0\<close> for positive \<open>y\<close>, a pole for negative \<open>y\<close>. A negative
  base does not occur and is not given a value.
\<close>

definition pow :: "real \<Rightarrow> real \<Rightarrow> real option" where
  "pow x y =
     (if y = 0 then Some 1
      else if x = 0 then (if 0 < y then Some 0 else None)
      else if 0 < x then Some (x powr y)
      else None)"

text \<open>\<open>a / b\<close> on doubles; the quotient by zero is not a real number.\<close>

definition quotient :: "real \<Rightarrow> real \<Rightarrow> real option" where
  "quotient a b = (if b = 0 then None else Some (a / b))"

subsection \<open>The exact and the monopole product of one pair\<close>

text \<open>
  The far-field scalar \<open>1.0 / pow(norm(c1 - c2), pow_s)\<close>, as \<open>SetBIs\<close>,
  \<open>AfApproxProduct\<close> and \<open>AfApproxBlock\<close> compute it.
\<close>

definition a_IJ :: "hierarchy \<Rightarrow> BlockClusterTree \<Rightarrow> ClusterPair \<Rightarrow> real option" where
  "a_IJ H T pair =
     do {
       d \<leftarrow> pow (norm3 (centerOfMass (H (cluster1 pair)) - centerOfMass (H (cluster2 pair))))
              (beta T - alpha T);
       quotient 1 d
     }"

definition isNeighbors :: "'p PolyCurveGroup \<Rightarrow> 'p \<Rightarrow> 'p \<Rightarrow> bool" where
  "isNeighbors curves p1 p2 \<longleftrightarrow>
     p1 = p2 \<or> Next curves p1 = p2 \<or> p1 = Next curves p2 \<or> Next curves p1 = Next curves p2"

text \<open>The entry \<open>af_ij\<close> that the inner loop of \<open>AfFullProduct\<close> computes.\<close>

definition af_ij :: "'p PolyCurveGroup \<Rightarrow> real \<Rightarrow> nat \<Rightarrow> nat \<Rightarrow> real option" where
  "af_ij curves pow_s e1index e2index =
     (let p1 = GetCurvePoint curves e1index;
          p2 = GetCurvePoint curves e2index;
          mid1 = vdiv (Position curves p1 + Position curves (Next curves p1)) 2;
          mid2 = vdiv (Position curves p2 + Position curves (Next curves p2)) 2;
          l1 = norm3 (Position curves p1 - Position curves (Next curves p1));
          l2 = norm3 (Position curves p2 - Position curves (Next curves p2))
      in if isNeighbors curves p1 p2 then Some 0
         else do { d \<leftarrow> pow (norm3 (mid1 - mid2)) pow_s; quotient (l1 * l2) d })"

text \<open>
  The body of the inner loop of \<open>AfFullProduct\<close>. Entry \<open>i\<close> of the two local arrays
  \<open>a_times_one\<close> and \<open>a_times_v\<close> is touched in iteration \<open>i\<close> of the outer loop
  only (both start at zero), so the pair of them is the accumulator of the inner loop.
\<close>

definition AfFullProduct_row ::
  "'p PolyCurveGroup \<Rightarrow> real \<Rightarrow> MatrixXd \<Rightarrow> nat \<Rightarrow> nat \<Rightarrow> real \<times> Vector3 \<Rightarrow> (real \<times> Vector3) option"
  where
  "AfFullProduct_row curves pow_s v_hat e1index e2index acc =
     do {
       a \<leftarrow> af_ij curves pow_s e1index e2index;
       row \<leftarrow> SelectRow v_hat e2index;
       Some (fst acc + a, snd acc + a *\<^sub>R row)
     }"

definition AfFullProduct ::
  "'p PolyCurveGroup \<Rightarrow> hierarchy \<Rightarrow> BlockClusterTree \<Rightarrow> ClusterPair \<Rightarrow> MatrixXd \<Rightarrow> MatrixXd \<Rightarrow>
   MatrixXd option" where
  "AfFullProduct curves H T pair v_hat result =
     (let pow_s = beta T - alpha T in
      foldM (\<lambda>e1index result.
               do {
                 acc \<leftarrow> foldM (AfFullProduct_row curves pow_s v_hat e1index)
                          (clusterIndices (H (cluster2 pair))) (0, 0);
                 row \<leftarrow> SelectRow v_hat e1index;
                 AddToRow result e1index (2 *\<^sub>R (fst acc *\<^sub>R row - snd acc))
               })
        (clusterIndices (H (cluster1 pair))) result)"

text \<open>
  \<open>AfApproxProduct\<close>. The two calls of the clock and the static counter
  \<open>traversalTime\<close> do not influence the result and are left out.
\<close>

definition AfApproxProduct ::
  "hierarchy \<Rightarrow> BlockClusterTree \<Rightarrow> ClusterPair \<Rightarrow> MatrixXd \<Rightarrow> MatrixXd \<Rightarrow> MatrixXd option" where
  "AfApproxProduct H T pair v_hat result =
     (let wf_i = clusterMassVector (H (cluster1 pair));
          wf_j = clusterMassVector (H (cluster2 pair))
      in do {
        a \<leftarrow> a_IJ H T pair;
        let a_wf_1 = a * sum_list wf_j;
        s \<leftarrow> foldM (\<lambda>j acc. do {
                       e \<leftarrow> coeff (clusterIndices (H (cluster2 pair))) j;
                       row \<leftarrow> SelectRow v_hat e;
                       Some (acc + (wf_j ! j) *\<^sub>R row)
                     }) [0..<length wf_j] 0;
        let a_wf_J = a *\<^sub>R s;
        foldM (\<lambda>i result. do {
                 e \<leftarrow> coeff (clusterIndices (H (cluster1 pair))) i;
                 row \<leftarrow> SelectRow v_hat e;
                 AddToRow result e ((wf_i ! i * 2) *\<^sub>R (a_wf_1 *\<^sub>R row - a_wf_J))
               }) [0..<length wf_i] result
      })"

definition MultiplyAdmissible ::
  "hierarchy \<Rightarrow> BlockClusterTree \<Rightarrow> MatrixXd \<Rightarrow> MatrixXd \<Rightarrow> MatrixXd option" where
  "MultiplyAdmissible H T v_hat b_hat =
     foldM (\<lambda>pair b. AfApproxProduct H T pair v_hat b) (admissiblePairs T) b_hat"

definition MultiplyInadmissible ::
  "'p PolyCurveGroup \<Rightarrow> hierarchy \<Rightarrow> BlockClusterTree \<Rightarrow> MatrixXd \<Rightarrow> MatrixXd \<Rightarrow> MatrixXd option"
  where
  "MultiplyInadmissible curves H T v_hat b_hat =
     foldM (\<lambda>pair b. AfFullProduct curves H T pair v_hat b) (inadmissiblePairs T) b_hat"

subsection \<open>The upward and downward passes\<close>

text \<open>The scratch fields of a node, and the store that holds them for every node.\<close>

record MVFields =
  V_I :: real
  B_I :: real
  aIJ_VJ :: real

type_synonym scratch = "ptr \<Rightarrow> MVFields"

text \<open>
  Modelled from the spec: \<open>recursivelyZeroMVFields\<close> is a member of \<open>BVHNode3D\<close>
  that is not part of the translation unit. The specification says of it: reset all node
  scratch fields. So every node's three scratch fields are zero afterwards.
\<close>

definition recursivelyZeroMVFields :: "scratch \<Rightarrow> scratch" where
  "recursivelyZeroMVFields S = (\<lambda>node. \<lparr>V_I = 0, B_I = 0, aIJ_VJ = 0\<rparr>)"

partial_function (option) SetVIs :: "hierarchy \<Rightarrow> VectorXd \<Rightarrow> ptr \<Rightarrow> scratch \<Rightarrow> scratch option" where
  "SetVIs H v_hat node S =
     (if IsLeaf (H node) then
        do {
          v_hat_j \<leftarrow> coeff v_hat (VertexIndex (H node));
          Some (S(node := (S node)\<lparr>V_I := totalMass (H node) * v_hat_j\<rparr>))
        }
      else
        foldM (\<lambda>child S1. do {
                 S2 \<leftarrow> SetVIs H v_hat child S1;
                 Some (S2(node := (S2 node)\<lparr>V_I := V_I (S2 node) + V_I (S2 child)\<rparr>))
               })
          (children (H node)) (S(node := (S node)\<lparr>V_I := 0\<rparr>)))"

partial_function (option) PropagateBIs ::
  "hierarchy \<Rightarrow> ptr \<Rightarrow> real \<Rightarrow> VectorXd \<times> scratch \<Rightarrow> (VectorXd \<times> scratch) option" where
  "PropagateBIs H node parent_BI st =
     (let b_tilde = fst st;
          S = (snd st)(node := (snd st node)\<lparr>B_I := parent_BI + aIJ_VJ (snd st node)\<rparr>)
      in if IsLeaf (H node) then
           (if VertexIndex (H node) < length b_tilde
            then Some (b_tilde[VertexIndex (H node) := B_I (S node)], S) else None)
         else
           foldM (\<lambda>child st1. PropagateBIs H child (B_I (snd st1 node)) st1)
             (children (H node)) (b_tilde, S))"

definition SetBIs ::
  "hierarchy \<Rightarrow> BlockClusterTree \<Rightarrow> ptr \<Rightarrow> VectorXd \<times> scratch \<Rightarrow> (VectorXd \<times> scratch) option" where
  "SetBIs H T node st =
     do {
       S \<leftarrow> foldM (\<lambda>pair S. do {
                     a \<leftarrow> a_IJ H T pair;
                     Some (S(cluster1 pair := (S (cluster1 pair))
                        \<lparr>aIJ_VJ := aIJ_VJ (S (cluster1 pair)) + a * V_I (S (cluster2 pair))\<rparr>))
                   }) (admissiblePairs T) (snd st);
       PropagateBIs H node 0 (fst st, S)
     }"

text \<open>\<open>d.asDiagonal() * v\<close>; the sizes must agree.\<close>

definition asDiagonal_times :: "VectorXd \<Rightarrow> VectorXd \<Rightarrow> VectorXd option" where
  "asDiagonal_times d v = (if length d = length v then Some (map2 (*) d v) else None)"

definition MultiplyAf ::
  "hierarchy \<Rightarrow> BlockClusterTree \<Rightarrow> VectorXd \<Rightarrow> scratch \<Rightarrow> (VectorXd \<times> scratch) option" where
  "MultiplyAf H T v S0 =
     do {
       let S1 = recursivelyZeroMVFields S0;
       let result = replicate (length v) 0;
       S2 \<leftarrow> SetVIs H v (tree_root T) S1;
       (result, S3) \<leftarrow> SetBIs H T (tree_root T) (result, S2);
       result \<leftarrow> asDiagonal_times (fullMasses (H (tree_root T))) result;
       Some (result, S3)
     }"

text \<open>\<open>A.col(i) = c\<close>: the column is overwritten; the sizes must agree.\<close>

definition setCol :: "(Vector3 \<Rightarrow> real \<Rightarrow> Vector3) \<Rightarrow> MatrixXd \<Rightarrow> VectorXd \<Rightarrow> MatrixXd option" where
  "setCol upd A c = (if length c = length A then Some (map2 upd A c) else None)"

text \<open>
  \<open>MultiplyAdmissibleFast\<close>. The state is the output buffer \<open>b_hat\<close> and the scratch
  store. The local \<open>b_tilde\<close> is never read.
\<close>

definition MultiplyAdmissibleFast ::
  "'p PolyCurveGroup \<Rightarrow> hierarchy \<Rightarrow> BlockClusterTree \<Rightarrow> MatrixXd \<Rightarrow> MatrixXd \<times> scratch \<Rightarrow>
   (MatrixXd \<times> scratch) option" where
  "MultiplyAdmissibleFast curves H T v_hat st =
     do {
       let nVerts = NumVertices curves;
       let ones = replicate nVerts 1;
       (h_f, S1) \<leftarrow> MultiplyAf H T ones (snd st);
       (c0, S2) \<leftarrow> MultiplyAf H T (map vec_x v_hat) S1;
       b1 \<leftarrow> setCol (\<lambda>row c. Vector3 c (vec_y row) (vec_z row)) (fst st) c0;
       (c1, S3) \<leftarrow> MultiplyAf H T (map vec_y v_hat) S2;
       b2 \<leftarrow> setCol (\<lambda>row c. Vector3 (vec_x row) c (vec_z row)) b1 c1;
       (c2, S4) \<leftarrow> MultiplyAf H T (map vec_z v_hat) S3;
       b3 \<leftarrow> setCol (\<lambda>row c. Vector3 (vec_x row) (vec_y row) c) b2 c2;
       (if length h_f = length v_hat \<and> length v_hat = length b3
        then Some (map (\<lambda>k. 2 *\<^sub>R ((h_f ! k) *\<^sub>R (v_hat ! k) - b3 ! k)) [0..<length b3], S4)
        else None)
     }"

section \<open>Notions the theorems are stated with\<close>

text \<open>
  The branch of the loop body of \<open>splitInadmissibleNodes\<close> that a pair of the worklist
  takes, by the order of its tests.
\<close>

datatype rule = Dropped | Singletons | Admissible | SmallEnough | Subdivided

definition ruleOf :: "hierarchy \<Rightarrow> real \<Rightarrow> ClusterPair \<Rightarrow> rule" where
  "ruleOf H theta pair =
     (if NumElements (H (cluster1 pair)) = 0 \<or> NumElements (H (cluster2 pair)) = 0 then Dropped
      else if NumElements (H (cluster1 pair)) = 1 \<and> NumElements (H (cluster2 pair)) = 1
        then Singletons
      else if isPairAdmissible H pair theta then Admissible
      else if isPairSmallEnough H pair then SmallEnough
      else Subdivided)"


subsection \<open>Termination and partition of the classification\<close>

text \<open>The measure of the worklist: one more than the largest combined element count.\<close>

definition pairWeight :: "hierarchy \<Rightarrow> ClusterPair \<Rightarrow> nat" where
  "pairWeight H p = nat (NumElements (H (cluster1 p)) + NumElements (H (cluster2 p)))"

definition worklistBound :: "hierarchy \<Rightarrow> ClusterPair list \<Rightarrow> nat" where
  "worklistBound H U = (if U = [] then 0 else Suc (Max (set (map (pairWeight H) U))))"

definition fewerInChildren :: "hierarchy \<Rightarrow> bool" where
  "fewerInChildren H = (\<forall>p. \<forall>c \<in> set (children (H p)). NumElements (H c) < NumElements (H p))"

text \<open>
  How often the ordered pair \<open>(i, j)\<close> occurs in the index cross-product of a cluster
  pair, and in those of a list of cluster pairs.
\<close>

definition crossCount :: "hierarchy \<Rightarrow> ClusterPair \<Rightarrow> nat \<Rightarrow> nat \<Rightarrow> nat" where
  "crossCount H p i j =
     count_list (clusterIndices (H (cluster1 p))) i * count_list (clusterIndices (H (cluster2 p))) j"

definition crossTotal :: "hierarchy \<Rightarrow> ClusterPair list \<Rightarrow> nat \<Rightarrow> nat \<Rightarrow> nat" where
  "crossTotal H ps i j = sum_list (map (\<lambda>p. crossCount H p i j) ps)"

text \<open>The pairs that ever stand on the worklist of the classification started at \<open>r\<close>.\<close>

inductive generated :: "hierarchy \<Rightarrow> real \<Rightarrow> ptr \<Rightarrow> ClusterPair \<Rightarrow> bool"
  for H :: hierarchy and theta :: real and r :: ptr where
  root: "generated H theta r \<lparr>cluster1 = r, cluster2 = r\<rparr>"
| child: "generated H theta r p \<Longrightarrow> ruleOf H theta p = Subdivided \<Longrightarrow> q \<in> set (childPairs H p)
          \<Longrightarrow> generated H theta r q"

text \<open>
  \<open>(i, j)\<close> was dropped: it lies in the cross-product of a pair of the worklist of which
  one side has zero elements.
\<close>

definition droppedAt :: "hierarchy \<Rightarrow> real \<Rightarrow> ptr \<Rightarrow> nat \<Rightarrow> nat \<Rightarrow> bool" where
  "droppedAt H theta r i j =
     (\<exists>p. generated H theta r p \<and> ruleOf H theta p = Dropped \<and>
          i \<in> set (clusterIndices (H (cluster1 p))) \<and> j \<in> set (clusterIndices (H (cluster2 p))))"

text \<open>
  The part of the node contract the partition needs: the indices of a node with more
  than one element are those of its children, up to order.
\<close>

definition indicesFromChildren :: "hierarchy \<Rightarrow> bool" where
  "indicesFromChildren H =
     (\<forall>p. 1 < NumElements (H p) \<longrightarrow>
          mset (clusterIndices (H p)) = mset (concat (map (\<lambda>c. clusterIndices (H c)) (children (H p)))))"

definition storedTotal :: "hierarchy \<Rightarrow> BlockClusterTree \<Rightarrow> nat \<Rightarrow> nat \<Rightarrow> nat" where
  "storedTotal H T i j =
     crossTotal H (admissiblePairs T) i j + crossTotal H (inadmissiblePairs T) i j"

text \<open>
  The invariant of the worklist loop: worklist and collections together hold \<open>(i, j)\<close>
  at most once, and exactly once unless it was dropped.
\<close>

definition partitionInv :: "hierarchy \<Rightarrow> real \<Rightarrow> ptr \<Rightarrow> nat \<Rightarrow> nat \<Rightarrow> BlockClusterTree \<Rightarrow> bool" where
  "partitionInv H theta r i j T \<longleftrightarrow>
     separationCoeff T = theta \<and>
     (\<forall>p \<in> set (unresolvedPairs T). generated H theta r p) \<and>
     crossTotal H (unresolvedPairs T) i j + storedTotal H T i j \<le> 1 \<and>
     (crossTotal H (unresolvedPairs T) i j + storedTotal H T i j = 1 \<or> droppedAt H theta r i j)"

text \<open>
  The pairs below \<open>q\<close>: \<open>q\<close> itself and the pairs that the subdivision of a pair
  below \<open>q\<close> generates.
\<close>

inductive descends :: "hierarchy \<Rightarrow> real \<Rightarrow> ClusterPair \<Rightarrow> ClusterPair \<Rightarrow> bool"
  for H :: hierarchy and theta :: real and q :: ClusterPair where
  self: "descends H theta q q"
| child: "descends H theta q p \<Longrightarrow> ruleOf H theta p = Subdivided \<Longrightarrow> p' \<in> set (childPairs H p)
          \<Longrightarrow> descends H theta q p'"

text \<open>
  The second invariant of the worklist loop: once a dropped pair that holds \<open>(i, j)\<close>
  has been treated, neither the worklist nor the two collections hold \<open>(i, j)\<close>; until
  then the pair is below a pair of the worklist.
\<close>

definition droppedInv :: "hierarchy \<Rightarrow> real \<Rightarrow> ptr \<Rightarrow> nat \<Rightarrow> nat \<Rightarrow> BlockClusterTree \<Rightarrow> bool" where
  "droppedInv H theta r i j T \<longleftrightarrow>
     (\<forall>p. generated H theta r p \<and> ruleOf H theta p = Dropped \<and> 0 < crossCount H p i j \<longrightarrow>
          crossTotal H (unresolvedPairs T) i j + storedTotal H T i j = 0 \<or>
          (\<exists>q \<in> set (unresolvedPairs T). descends H theta q p))"

subsection \<open>Closed forms of the two direct products\<close>

text \<open>The matrix \<open>r\<close> with \<open>d k\<close> added to row \<open>k\<close>.\<close>

definition addRows :: "MatrixXd \<Rightarrow> (nat \<Rightarrow> Vector3) \<Rightarrow> MatrixXd" where
  "addRows r d = map (\<lambda>k. r ! k + d k) [0..<length r]"

text \<open>\<open>x\<close> to the power \<open>y\<close> for \<open>x \<ge> 0\<close>, with \<open>x\<^sup>0 = 1\<close>.\<close>

definition power_of :: "real \<Rightarrow> real \<Rightarrow> real" where
  "power_of x y = (if y = 0 then 1 else x powr y)"

definition segmentLength :: "'p PolyCurveGroup \<Rightarrow> nat \<Rightarrow> real" where
  "segmentLength curves i =
     norm3 (Position curves (GetCurvePoint curves i) - Position curves (Next curves (GetCurvePoint curves i)))"

definition midpoint :: "'p PolyCurveGroup \<Rightarrow> nat \<Rightarrow> Vector3" where
  "midpoint curves i =
     vdiv (Position curves (GetCurvePoint curves i) + Position curves (Next curves (GetCurvePoint curves i))) 2"

text \<open>
  The entry a(i, j) of the implicit operator as the claim gives it: zero for identical or
  adjacent elements (their segments share an end point), else the product of the segment
  lengths over the distance of the midpoints to the power \<open>s\<close>.
\<close>

definition afValue :: "'p PolyCurveGroup \<Rightarrow> real \<Rightarrow> nat \<Rightarrow> nat \<Rightarrow> real" where
  "afValue curves s i j =
     (if isNeighbors curves (GetCurvePoint curves i) (GetCurvePoint curves j) then 0
      else segmentLength curves i * segmentLength curves j /
           power_of (norm3 (midpoint curves i - midpoint curves j)) s)"

text \<open>Where \<open>af_ij\<close> is a real number.\<close>

definition afDefined :: "'p PolyCurveGroup \<Rightarrow> real \<Rightarrow> nat \<Rightarrow> nat \<Rightarrow> bool" where
  "afDefined curves s i j \<longleftrightarrow>
     isNeighbors curves (GetCurvePoint curves i) (GetCurvePoint curves j) \<or>
     s = 0 \<or> midpoint curves i \<noteq> midpoint curves j"

text \<open>The contribution of row \<open>i\<close> of one pair: \<open>toAdd\<close> of the source.\<close>

definition nearField :: "'p PolyCurveGroup \<Rightarrow> real \<Rightarrow> MatrixXd \<Rightarrow> nat list \<Rightarrow> nat \<Rightarrow> Vector3" where
  "nearField curves s v js i =
     2 *\<^sub>R ((\<Sum>j\<leftarrow>js. afValue curves s i j) *\<^sub>R (v ! i) - (\<Sum>j\<leftarrow>js. afValue curves s i j *\<^sub>R (v ! j)))"

definition rowDefined :: "'p PolyCurveGroup \<Rightarrow> real \<Rightarrow> nat \<Rightarrow> nat list \<Rightarrow> nat \<Rightarrow> bool" where
  "rowDefined curves s n js i \<longleftrightarrow>
     list_all (\<lambda>j. afDefined curves s i j \<and> j < n) js \<and> i < n"

definition fullDefined ::
  "'p PolyCurveGroup \<Rightarrow> hierarchy \<Rightarrow> real \<Rightarrow> nat \<Rightarrow> nat \<Rightarrow> ClusterPair \<Rightarrow> bool" where
  "fullDefined curves H s n m pair \<longleftrightarrow>
     list_all (\<lambda>i. rowDefined curves s n (clusterIndices (H (cluster2 pair))) i \<and> i < m)
       (clusterIndices (H (cluster1 pair)))"

text \<open>What \<open>AfFullProduct\<close> adds to row \<open>k\<close>, and where it is defined.\<close>

definition fullDelta ::
  "'p PolyCurveGroup \<Rightarrow> hierarchy \<Rightarrow> real \<Rightarrow> MatrixXd \<Rightarrow> ClusterPair \<Rightarrow> nat \<Rightarrow> Vector3" where
  "fullDelta curves H s v pair =
     (\<lambda>k. real (count_list (clusterIndices (H (cluster1 pair))) k) *\<^sub>R
          nearField curves s v (clusterIndices (H (cluster2 pair))) k)"

text \<open>The value of \<open>a_IJ\<close>, and where it is a real number.\<close>

definition farScalar :: "hierarchy \<Rightarrow> real \<Rightarrow> ClusterPair \<Rightarrow> real" where
  "farScalar H s pair =
     1 / power_of (norm3 (centerOfMass (H (cluster1 pair)) - centerOfMass (H (cluster2 pair)))) s"

definition farDefined :: "hierarchy \<Rightarrow> real \<Rightarrow> ClusterPair \<Rightarrow> bool" where
  "farDefined H s pair \<longleftrightarrow>
     s = 0 \<or> centerOfMass (H (cluster1 pair)) \<noteq> centerOfMass (H (cluster2 pair))"

definition weightedSum :: "hierarchy \<Rightarrow> ptr \<Rightarrow> MatrixXd \<Rightarrow> Vector3" where
  "weightedSum H c v =
     (\<Sum>j\<leftarrow>[0..<length (clusterMassVector (H c))].
        (clusterMassVector (H c) ! j) *\<^sub>R (v ! (clusterIndices (H c) ! j)))"

text \<open>The mass a cluster lists for element \<open>k\<close>.\<close>

definition massAt :: "hierarchy \<Rightarrow> ptr \<Rightarrow> nat \<Rightarrow> real" where
  "massAt H c k =
     (\<Sum>i\<leftarrow>[0..<length (clusterMassVector (H c))].
        if clusterIndices (H c) ! i = k then clusterMassVector (H c) ! i else 0)"

definition sideDefined :: "hierarchy \<Rightarrow> nat \<Rightarrow> ptr \<Rightarrow> bool" where
  "sideDefined H n c \<longleftrightarrow>
     list_all (\<lambda>j. j < length (clusterIndices (H c)) \<and> clusterIndices (H c) ! j < n)
       [0..<length (clusterMassVector (H c))]"

definition approxDefined :: "hierarchy \<Rightarrow> real \<Rightarrow> nat \<Rightarrow> nat \<Rightarrow> ClusterPair \<Rightarrow> bool" where
  "approxDefined H s n m pair \<longleftrightarrow>
     farDefined H s pair \<and> sideDefined H n (cluster2 pair) \<and>
     sideDefined H n (cluster1 pair) \<and> sideDefined H m (cluster1 pair)"

text \<open>What \<open>AfApproxProduct\<close> adds to row \<open>k\<close>.\<close>

definition approxDelta :: "hierarchy \<Rightarrow> real \<Rightarrow> MatrixXd \<Rightarrow> ClusterPair \<Rightarrow> nat \<Rightarrow> Vector3" where
  "approxDelta H s v pair =
     (\<lambda>k. (2 * massAt H (cluster1 pair) k) *\<^sub>R
          ((farScalar H s pair * sum_list (clusterMassVector (H (cluster2 pair)))) *\<^sub>R (v ! k) -
           farScalar H s pair *\<^sub>R weightedSum H (cluster2 pair) v))"

subsection \<open>The node contract the propagation relies on\<close>

text \<open>
  The nodes below \<open>p\<close> in the order the recursions visit them, to depth \<open>d\<close>. The
  hierarchy is a tree of height at most \<open>d\<close> below \<open>p\<close> when \<open>subtreeOK\<close> holds
  and this list is distinct.
\<close>

fun nodesBelow :: "hierarchy \<Rightarrow> nat \<Rightarrow> ptr \<Rightarrow> ptr list" where
  "nodesBelow H 0 p = [p]"
| "nodesBelow H (Suc d) p =
     p # (if IsLeaf (H p) then [] else concat (map (nodesBelow H d) (children (H p))))"

text \<open>
  The node contract below \<open>p\<close>, for the per-element masses \<open>M\<close>: the mass vector of
  a cluster lists the masses of its indices; a leaf holds its own vertex index, in range,
  and its mass; the indices of an inner node are those of its children, up to order.
\<close>

fun subtreeOK :: "hierarchy \<Rightarrow> real list \<Rightarrow> nat \<Rightarrow> ptr \<Rightarrow> bool" where
  "subtreeOK H M 0 p = False"
| "subtreeOK H M (Suc d) p =
     (clusterMassVector (H p) = map (\<lambda>k. M ! k) (clusterIndices (H p)) \<and>
      (if IsLeaf (H p)
       then clusterIndices (H p) = [VertexIndex (H p)] \<and> totalMass (H p) = M ! VertexIndex (H p) \<and>
            VertexIndex (H p) < length M
       else mset (clusterIndices (H p)) =
              mset (concat (map (\<lambda>c. clusterIndices (H c)) (children (H p)))) \<and>
            list_all (subtreeOK H M d) (children (H p))))"

definition colSum :: "real list \<Rightarrow> real list \<Rightarrow> nat list \<Rightarrow> real" where
  "colSum M v ks = (\<Sum>k\<leftarrow>ks. M ! k * v ! k)"

definition setV :: "(ptr \<Rightarrow> real) \<Rightarrow> ptr set \<Rightarrow> scratch \<Rightarrow> scratch" where
  "setV V N S = (\<lambda>q. if q \<in> N then (S q)\<lparr>V_I := V q\<rparr> else S q)"

text \<open>The sum of \<open>A\<close> over the nodes below \<open>p\<close> that list element \<open>k\<close>.\<close>

definition pathSum :: "hierarchy \<Rightarrow> (ptr \<Rightarrow> real) \<Rightarrow> nat \<Rightarrow> ptr \<Rightarrow> nat \<Rightarrow> real" where
  "pathSum H A d p k =
     (\<Sum>q\<leftarrow>nodesBelow H d p. if k \<in> set (clusterIndices (H q)) then A q else 0)"

definition downRows ::
  "hierarchy \<Rightarrow> (ptr \<Rightarrow> real) \<Rightarrow> nat \<Rightarrow> ptr \<Rightarrow> real \<Rightarrow> VectorXd \<Rightarrow> VectorXd" where
  "downRows H A d p parent_BI b =
     map (\<lambda>k. if k \<in> set (clusterIndices (H p)) then parent_BI + pathSum H A d p k else b ! k)
       [0..<length b]"

definition pending :: "hierarchy \<Rightarrow> real \<Rightarrow> (ptr \<Rightarrow> real) \<Rightarrow> ClusterPair list \<Rightarrow> ptr \<Rightarrow> real" where
  "pending H s V ps q =
     (\<Sum>p\<leftarrow>ps. if cluster1 p = q then farScalar H s p * V (cluster2 p) else 0)"

text \<open>Entry \<open>k\<close> of the vector \<open>b_tilde\<close> that the two passes compute from \<open>v\<close>.\<close>

definition farRow :: "hierarchy \<Rightarrow> real \<Rightarrow> real list \<Rightarrow> real list \<Rightarrow> ClusterPair list \<Rightarrow> nat \<Rightarrow> real" where
  "farRow H s M v ps k =
     (\<Sum>p\<leftarrow>ps. if k \<in> set (clusterIndices (H (cluster1 p)))
               then farScalar H s p * colSum M v (clusterIndices (H (cluster2 p))) else 0)"

definition pairsInside :: "hierarchy \<Rightarrow> nat \<Rightarrow> ptr \<Rightarrow> ClusterPair list \<Rightarrow> bool" where
  "pairsInside H d tree ps \<longleftrightarrow>
     list_all (\<lambda>p. cluster1 p \<in> set (nodesBelow H d tree) \<and> cluster2 p \<in> set (nodesBelow H d tree)) ps"

text \<open>
  The contract of hierarchy and tree together: the node contract below the root for the
  root's \<open>fullMasses\<close>, no node reached twice, no index listed twice at the root, and the
  admissible pairs made of nodes of the tree.
\<close>

definition hierarchyContract :: "hierarchy \<Rightarrow> BlockClusterTree \<Rightarrow> nat \<Rightarrow> bool" where
  "hierarchyContract H T d \<longleftrightarrow>
     subtreeOK H (fullMasses (H (tree_root T))) d (tree_root T) \<and>
     distinct (nodesBelow H d (tree_root T)) \<and>
     distinct (clusterIndices (H (tree_root T))) \<and>
     pairsInside H d (tree_root T) (admissiblePairs T)"

definition vecSum :: "real list \<Rightarrow> MatrixXd \<Rightarrow> nat list \<Rightarrow> Vector3" where
  "vecSum M v ks = (\<Sum>k\<leftarrow>ks. (M ! k) *\<^sub>R (v ! k))"

subsection \<open>Mirror pairs, one-hot fields and linear combinations\<close>

text \<open>The pair with its sides exchanged; a list that holds each pair as often as its mirror.\<close>

definition mirror :: "ClusterPair \<Rightarrow> ClusterPair" where
  "mirror p = \<lparr>cluster1 = cluster2 p, cluster2 = cluster1 p\<rparr>"

definition mirrorClosed :: "ClusterPair list \<Rightarrow> bool" where
  "mirrorClosed ps \<longleftrightarrow> mset (map mirror ps) = mset ps"

definition mirrorInv :: "BlockClusterTree \<Rightarrow> bool" where
  "mirrorInv T \<longleftrightarrow>
     mirrorClosed (unresolvedPairs T) \<and> mirrorClosed (admissiblePairs T) \<and>
     mirrorClosed (inadmissiblePairs T)"

text \<open>The field that is \<open>u\<close> at element \<open>i\<close> and zero elsewhere.\<close>

definition oneHot :: "nat \<Rightarrow> nat \<Rightarrow> Vector3 \<Rightarrow> MatrixXd" where
  "oneHot n i u = (replicate n 0)[i := u]"

definition nearEntry :: "'p PolyCurveGroup \<Rightarrow> hierarchy \<Rightarrow> real \<Rightarrow> ClusterPair \<Rightarrow> nat \<Rightarrow> nat \<Rightarrow> real" where
  "nearEntry curves H s p a b =
     real (count_list (clusterIndices (H (cluster1 p))) a) *
     real (count_list (clusterIndices (H (cluster2 p))) b) * afValue curves s a b"

definition farEntry :: "hierarchy \<Rightarrow> real \<Rightarrow> ClusterPair \<Rightarrow> nat \<Rightarrow> nat \<Rightarrow> real" where
  "farEntry H s p a b = massAt H (cluster1 p) a * farScalar H s p * massAt H (cluster2 p) b"

text \<open>The field \<open>v1 + c * v2\<close>.\<close>

definition axpy :: "real \<Rightarrow> MatrixXd \<Rightarrow> MatrixXd \<Rightarrow> MatrixXd" where
  "axpy c v1 v2 = map2 (\<lambda>a b. a + c *\<^sub>R b) v1 v2"

text \<open>
  Three scratch stores of which the third holds, field by field and node by node, the
  first plus \<open>c\<close> times the second.
\<close>

definition linked :: "real \<Rightarrow> scratch \<Rightarrow> scratch \<Rightarrow> scratch \<Rightarrow> bool" where
  "linked c Sa Sb Sc \<longleftrightarrow>
     (\<forall>q. V_I (Sc q) = V_I (Sa q) + c * V_I (Sb q) \<and>
          B_I (Sc q) = B_I (Sa q) + c * B_I (Sb q) \<and>
          aIJ_VJ (Sc q) = aIJ_VJ (Sa q) + c * aIJ_VJ (Sb q))"

text \<open>The vector \<open>w1 + c * w2\<close>.\<close>

definition axpy1 :: "real \<Rightarrow> VectorXd \<Rightarrow> VectorXd \<Rightarrow> VectorXd" where
  "axpy1 c w1 w2 = map2 (\<lambda>a b. a + c * b) w1 w2"

text \<open>The same for the state of the downward pass: the vector \<open>b_tilde\<close> and the store.\<close>

definition linkedSt ::
  "real \<Rightarrow> VectorXd \<times> scratch \<Rightarrow> VectorXd \<times> scratch \<Rightarrow> VectorXd \<times> scratch \<Rightarrow> bool" where
  "linkedSt c sta stb stc \<longleftrightarrow>
     length (fst sta) = length (fst stb) \<and> fst stc = axpy1 c (fst sta) (fst stb) \<and>
     linked c (snd sta) (snd stb) (snd stc)"

subsection \<open>A worked example: five collinear segments\<close>

text \<open>
  Five segments on the x axis, between the points 0, 1, 3, 4, 6 and 10; element \<open>k\<close> is
  the segment from point \<open>k\<close> to point \<open>k + 1\<close>. The hierarchy has the root (address 0)
  over the cluster of elements 0 to 3 (address 1, with leaves 3 to 6) and the leaf of
  element 4 (address 2).
\<close>

definition exampleCurve :: "nat PolyCurveGroup" where
  "exampleCurve =
     \<lparr>NumVertices = 5, GetCurvePoint = (\<lambda>i. i), Next = Suc,
      Position = (\<lambda>p. Vector3 (if p < 6 then [0, 1, 3, 4, 6, 10] ! p else 0) 0 0)\<rparr>"

definition exampleNode ::
  "int \<Rightarrow> ptr list \<Rightarrow> real \<Rightarrow> real \<Rightarrow> nat list \<Rightarrow> bool \<Rightarrow> nat \<Rightarrow> real \<Rightarrow> BVHNode3D" where
  "exampleNode n cs x m ks leaf vi ext =
     \<lparr>NumElements = n, children = cs, centerOfMass = Vector3 x 0 0, totalMass = m,
      clusterIndices = ks, clusterMassVector = map (\<lambda>k. [1, 2, 1, 2, 4] ! k) ks,
      IsLeaf = leaf, VertexIndex = vi, viewspaceBounds = (\<lambda>p. Vector2 ext ext),
      fullMasses = [1, 2, 1, 2, 4]\<rparr>"

definition exampleH :: hierarchy where
  "exampleH p =
     (if p = 0 then exampleNode 5 [1, 2] 5 10 [0, 1, 2, 3, 4] False 0 4
      else if p = 1 then exampleNode 4 [3, 4, 5, 6] 3 6 [0, 1, 2, 3] False 0 1
      else if p = 2 then exampleNode 1 [] 8 4 [4] True 4 0
      else if p = 3 then exampleNode 1 [] (1/2) 1 [0] True 0 0
      else if p = 4 then exampleNode 1 [] 2 2 [1] True 1 0
      else if p = 5 then exampleNode 1 [] (7/2) 1 [2] True 2 0
      else if p = 6 then exampleNode 1 [] 5 2 [3] True 3 0
      else exampleNode 0 [] 0 0 [] False 0 0)"

definition exampleT :: BlockClusterTree where
  "exampleT =
     \<lparr>alpha = 2, beta = 4, separationCoeff = 1/2, epsilon = 0, tree_root = 0, nVerts = 5,
      constraintsSet = False, mode = MatrixOnly,
      admissiblePairs = [\<lparr>cluster1 = 1, cluster2 = 2\<rparr>, \<lparr>cluster1 = 2, cluster2 = 1\<rparr>],
      inadmissiblePairs = [\<lparr>cluster1 = 1, cluster2 = 1\<rparr>, \<lparr>cluster1 = 2, cluster2 = 2\<rparr>],
      unresolvedPairs = []\<rparr>"

definition exampleV :: MatrixXd where
  "exampleV = [Vector3 1 0 0, Vector3 0 1 0, Vector3 0 0 1, Vector3 1 1 0, Vector3 2 0 1]"

definition exampleS :: scratch where
  "exampleS = (\<lambda>node. \<lparr>V_I = 7, B_I = 7, aIJ_VJ = 7\<rparr>)"

definition exampleW :: MatrixXd where
  "exampleW = [Vector3 0 2 0, Vector3 1 1 1, Vector3 0 0 3, Vector3 4 0 0, Vector3 0 1 2]"

definition exampleU :: Vector3 where
  "exampleU = Vector3 1 2 3"





section \<open>The rules of classification\<close>

lemma fmax_max: "fmax a b = max a b"
  by (auto simp: fmax_def max_def)

lemma splitPair_ruleOf:
  "splitPair H p (T, N) =
     (case ruleOf H (separationCoeff T) p of
        Dropped \<Rightarrow> (T, N)
      | Singletons \<Rightarrow> (T\<lparr>inadmissiblePairs := inadmissiblePairs T @ [p]\<rparr>, N)
      | Admissible \<Rightarrow> (T\<lparr>admissiblePairs := admissiblePairs T @ [p]\<rparr>, N)
      | SmallEnough \<Rightarrow> (T\<lparr>inadmissiblePairs := inadmissiblePairs T @ [p]\<rparr>, N)
      | Subdivided \<Rightarrow> (T, N @ childPairs H p))"
  unfolding splitPair_def ruleOf_def Let_def fst_conv snd_conv
  by (simp only: rule.case if_distrib [of "case_rule _ _ _ _ _"] split: if_split)

lemma fold_splitPair:
  "fold (splitPair H) U (T, N) =
     (T\<lparr>admissiblePairs :=
          admissiblePairs T @ filter (\<lambda>p. ruleOf H (separationCoeff T) p = Admissible) U,
        inadmissiblePairs :=
          inadmissiblePairs T @
          filter (\<lambda>p. ruleOf H (separationCoeff T) p = Singletons \<or>
                      ruleOf H (separationCoeff T) p = SmallEnough) U\<rparr>,
      N @ concat (map (childPairs H)
                    (filter (\<lambda>p. ruleOf H (separationCoeff T) p = Subdivided) U)))"
proof (induction U arbitrary: T N)
  case Nil
  show ?case by simp
next
  case (Cons p U)
  show ?case
    by (cases "ruleOf H (separationCoeff T) p") (simp_all add: Cons.IH splitPair_ruleOf)
qed


lemma splitInadmissibleNodes_eq:
  "splitInadmissibleNodes H T =
     T\<lparr>admissiblePairs :=
         admissiblePairs T @
         filter (\<lambda>p. ruleOf H (separationCoeff T) p = Admissible) (unresolvedPairs T),
       inadmissiblePairs :=
         inadmissiblePairs T @
         filter (\<lambda>p. ruleOf H (separationCoeff T) p = Singletons \<or>
                     ruleOf H (separationCoeff T) p = SmallEnough) (unresolvedPairs T),
       unresolvedPairs :=
         concat (map (childPairs H)
           (filter (\<lambda>p. ruleOf H (separationCoeff T) p = Subdivided) (unresolvedPairs T)))\<rparr>"
  by (simp add: splitInadmissibleNodes_def fold_splitPair Let_def)

lemma int_plus_eq: "- (2 ^ 31) \<le> a + b \<Longrightarrow> a + b < 2 ^ 31 \<Longrightarrow> int_plus a b = a + b"
  by (simp add: int_plus_def)



text \<open>
  Claim C5. The admissibility test answers true exactly when the two sides are
  different references and the largest of the four viewspace extents (the radial and the
  linear extent of each cluster, seen from the other cluster's centre of mass) is
  strictly below \<open>theta\<close> times the distance of the two centres of mass. A cluster paired
  with itself is therefore admissible for no \<open>theta\<close>.
\<close>

theorem isPairAdmissible_iff:
  "(isPairAdmissible H pair theta \<longleftrightarrow>
      cluster1 pair \<noteq> cluster2 pair \<and>
      max (max (vec2_x (viewspaceBounds (H (cluster1 pair)) (centerOfMass (H (cluster2 pair)))))
               (vec2_x (viewspaceBounds (H (cluster2 pair)) (centerOfMass (H (cluster1 pair))))))
          (max (vec2_y (viewspaceBounds (H (cluster1 pair)) (centerOfMass (H (cluster2 pair)))))
               (vec2_y (viewspaceBounds (H (cluster2 pair)) (centerOfMass (H (cluster1 pair))))))
        < theta * norm3 (centerOfMass (H (cluster1 pair)) - centerOfMass (H (cluster2 pair))))
   \<and> \<not> isPairAdmissible H \<lparr>cluster1 = c, cluster2 = c\<rparr> theta'"
  by (simp add: isPairAdmissible_def fmax_max Let_def)

section \<open>Termination of the constructor\<close>

lemma mem_childPairs:
  "q \<in> set (childPairs H p) \<longleftrightarrow>
     cluster1 q \<in> set (children (H (cluster1 p))) \<and> cluster2 q \<in> set (children (H (cluster2 p)))"
  by (cases q) (auto simp: childPairs_def)

lemma ruleOf_Subdivided:
  "ruleOf H theta p = Subdivided \<Longrightarrow>
     1 < NumElements (H (cluster1 p)) \<and> 1 < NumElements (H (cluster2 p)) \<and>
     8 < int_plus (NumElements (H (cluster1 p))) (NumElements (H (cluster2 p)))"
  by (simp add: ruleOf_def isPairSmallEnough_def Let_def split: if_splits)

lemma pairWeight_child:
  assumes "fewerInChildren H" and "ruleOf H theta p = Subdivided" and "q \<in> set (childPairs H p)"
  shows "pairWeight H q < pairWeight H p"
proof -
  have "NumElements (H (cluster1 q)) < NumElements (H (cluster1 p))"
    and "NumElements (H (cluster2 q)) < NumElements (H (cluster2 p))"
    using assms(1,3) by (auto simp: fewerInChildren_def mem_childPairs)
  moreover have "1 < NumElements (H (cluster1 p))" and "1 < NumElements (H (cluster2 p))"
    using ruleOf_Subdivided [OF assms(2)] by simp_all
  ultimately show ?thesis by (simp add: pairWeight_def)
qed

lemma unresolvedPairs_split:
  "unresolvedPairs (splitInadmissibleNodes H T) =
     concat (map (childPairs H)
       (filter (\<lambda>p. ruleOf H (separationCoeff T) p = Subdivided) (unresolvedPairs T)))"
  by (simp add: splitInadmissibleNodes_eq)

lemma worklistBound_decreases:
  assumes "fewerInChildren H" and "unresolvedPairs T \<noteq> []"
  shows "worklistBound H (unresolvedPairs (splitInadmissibleNodes H T))
           < worklistBound H (unresolvedPairs T)"
proof (cases "unresolvedPairs (splitInadmissibleNodes H T) = []")
  case True
  then show ?thesis using assms(2) by (simp add: worklistBound_def)
next
  case False
  let ?U = "unresolvedPairs T" and ?U' = "unresolvedPairs (splitInadmissibleNodes H T)"
  have "Max (set (map (pairWeight H) ?U')) \<in> set (map (pairWeight H) ?U')"
    using False by (intro Max_in) simp_all
  then obtain q where q: "q \<in> set ?U'" and m: "Max (set (map (pairWeight H) ?U')) = pairWeight H q"
    by auto
  from q obtain p where p: "p \<in> set ?U" "ruleOf H (separationCoeff T) p = Subdivided"
      "q \<in> set (childPairs H p)"
    unfolding unresolvedPairs_split by auto
  have "pairWeight H q < pairWeight H p"
    using pairWeight_child [OF assms(1) p(2) p(3)] .
  also have "pairWeight H p \<le> Max (set (map (pairWeight H) ?U))"
    using p(1) by (intro Max_ge) simp_all
  finally show ?thesis using m False assms(2) by (simp add: worklistBound_def)
qed

lemma resolvePairs_terminates:
  assumes "fewerInChildren H"
  shows "\<exists>T'. resolvePairs H T = Some T' \<and> unresolvedPairs T' = []"
proof (induction "worklistBound H (unresolvedPairs T)" arbitrary: T rule: less_induct)
  case less
  show ?case
  proof (cases "unresolvedPairs T = []")
    case True
    then show ?thesis by (subst resolvePairs.simps) simp
  next
    case False
    from less [OF worklistBound_decreases [OF assms False]]
    obtain T' where "resolvePairs H (splitInadmissibleNodes H T) = Some T'" "unresolvedPairs T' = []"
      by blast
    then show ?thesis using False by (subst resolvePairs.simps) simp
  qed
qed

text \<open>
  Claim C9. In a hierarchy in which every child has strictly fewer elements than its
  parent, the loop of the constructor ends: the constructor returns a tree, and its
  worklist is empty. Every pair a subdivision generates has strictly fewer elements than
  its parent pair on both sides, and a pair of which a side has at most one element, or
  which has at most 8 elements together, is never subdivided.
\<close>

theorem constructor_terminates:
  assumes "\<forall>p. \<forall>c \<in> set (children (H p)). NumElements (H c) < NumElements (H p)"
  shows "(\<exists>T. newBlockClusterTree H numVertices tree sepCoeff a b e = Some T \<and>
              unresolvedPairs T = []) \<and>
         (\<forall>p q. ruleOf H sepCoeff p = Subdivided \<longrightarrow> q \<in> set (childPairs H p) \<longrightarrow>
              NumElements (H (cluster1 q)) < NumElements (H (cluster1 p)) \<and>
              NumElements (H (cluster2 q)) < NumElements (H (cluster2 p))) \<and>
         (\<forall>p. NumElements (H (cluster1 p)) \<le> 1 \<or> NumElements (H (cluster2 p)) \<le> 1 \<or>
              NumElements (H (cluster1 p)) + NumElements (H (cluster2 p)) \<le> 8 \<longrightarrow>
              ruleOf H sepCoeff p \<noteq> Subdivided)"
proof (intro conjI allI impI)
  have "fewerInChildren H" using assms by (simp add: fewerInChildren_def)
  from resolvePairs_terminates [OF this, of "\<lparr>alpha = a, beta = b, separationCoeff = sepCoeff,
           epsilon = e, tree_root = tree,
           nVerts = numVertices, constraintsSet = False, mode = MatrixOnly,
           admissiblePairs = [], inadmissiblePairs = [],
           unresolvedPairs = [\<lparr>cluster1 = tree, cluster2 = tree\<rparr>]\<rparr>"]
  obtain T' where "resolvePairs H \<lparr>alpha = a, beta = b, separationCoeff = sepCoeff,
           epsilon = e, tree_root = tree,
           nVerts = numVertices, constraintsSet = False, mode = MatrixOnly,
           admissiblePairs = [], inadmissiblePairs = [],
           unresolvedPairs = [\<lparr>cluster1 = tree, cluster2 = tree\<rparr>]\<rparr> = Some T'"
    "unresolvedPairs T' = []"
    by blast
  then show "\<exists>T. newBlockClusterTree H numVertices tree sepCoeff a b e = Some T \<and>
      unresolvedPairs T = []"
    by (simp add: newBlockClusterTree_def)
next
  fix p q
  assume "ruleOf H sepCoeff p = Subdivided" and "q \<in> set (childPairs H p)"
  then show "NumElements (H (cluster1 q)) < NumElements (H (cluster1 p))"
    and "NumElements (H (cluster2 q)) < NumElements (H (cluster2 p))"
    using assms by (auto simp: mem_childPairs)
next
  fix p :: ClusterPair
  assume "NumElements (H (cluster1 p)) \<le> 1 \<or> NumElements (H (cluster2 p)) \<le> 1 \<or>
      NumElements (H (cluster1 p)) + NumElements (H (cluster2 p)) \<le> 8"
  then show "ruleOf H sepCoeff p \<noteq> Subdivided"
    using ruleOf_Subdivided [of H sepCoeff p]
      int_plus_eq [of "NumElements (H (cluster1 p))" "NumElements (H (cluster2 p))"]
    by auto
qed

section \<open>The classification partitions the index pairs\<close>

lemma crossTotal_append: "crossTotal H (ps @ qs) i j = crossTotal H ps i j + crossTotal H qs i j"
  by (simp add: crossTotal_def)

lemma crossTotal_Nil: "crossTotal H [] i j = 0"
  by (simp add: crossTotal_def)

lemma crossTotal_concat:
  "crossTotal H (concat pss) i j = sum_list (map (\<lambda>ps. crossTotal H ps i j) pss)"
  by (induction pss) (simp_all add: crossTotal_append crossTotal_Nil)

lemma sum_list_product:
  fixes f :: "'a \<Rightarrow> nat" and g :: "'b \<Rightarrow> nat"
  shows "sum_list (map (\<lambda>a. sum_list (map (\<lambda>b. f a * g b) ys)) xs) = sum_list (map f xs) * sum_list (map g ys)"
  by (induction xs) (simp_all add: sum_list_const_mult algebra_simps)

lemma crossTotal_childPairs:
  assumes "indicesFromChildren H" and "ruleOf H theta p = Subdivided"
  shows "crossTotal H (childPairs H p) i j = crossCount H p i j"
proof -
  have n: "1 < NumElements (H (cluster1 p))" "1 < NumElements (H (cluster2 p))"
    using ruleOf_Subdivided [OF assms(2)] by simp_all
  have c: "count_list (clusterIndices (H q)) k =
        sum_list (map (\<lambda>c. count_list (clusterIndices (H c)) k) (children (H q)))"
    if "1 < NumElements (H q)" for q k
  proof -
    have "mset (clusterIndices (H q)) = mset (concat (map (\<lambda>c. clusterIndices (H c)) (children (H q))))"
      using assms(1) that by (simp add: indicesFromChildren_def)
    then have "count_list (clusterIndices (H q)) k =
        count_list (concat (map (\<lambda>c. clusterIndices (H c)) (children (H q)))) k"
      by (simp only: count_mset [symmetric])
    then show ?thesis by (simp add: count_list_concat comp_def)
  qed
  have "crossTotal H (childPairs H p) i j =
      sum_list (map (\<lambda>a. sum_list (map (\<lambda>b. count_list (clusterIndices (H a)) i *
          count_list (clusterIndices (H b)) j) (children (H (cluster2 p))))) (children (H (cluster1 p))))"
    by (simp add: childPairs_def crossTotal_concat comp_def) (simp add: crossTotal_def crossCount_def comp_def)
  also have "\<dots> = crossCount H p i j"
    by (simp only: sum_list_product crossCount_def c [OF n(1)] c [OF n(2)])
  finally show ?thesis .
qed

lemma crossTotal_concat_childPairs:
  assumes "indicesFromChildren H" and "\<forall>p \<in> set ps. ruleOf H theta p = Subdivided"
  shows "crossTotal H (concat (map (childPairs H) ps)) i j = crossTotal H ps i j"
  using assms(2)
proof (induction ps)
  case Nil
  show ?case by simp
next
  case (Cons p ps)
  then show ?case
    using crossTotal_childPairs [OF assms(1), of theta p i j]
    by (simp add: crossTotal_append) (simp add: crossTotal_def)
qed

lemma crossTotal_by_rule:
  "crossTotal H U i j =
     crossTotal H (filter (\<lambda>p. ruleOf H theta p = Dropped) U) i j +
     crossTotal H (filter (\<lambda>p. ruleOf H theta p = Admissible) U) i j +
     crossTotal H (filter (\<lambda>p. ruleOf H theta p = Singletons \<or> ruleOf H theta p = SmallEnough) U) i j +
     crossTotal H (filter (\<lambda>p. ruleOf H theta p = Subdivided) U) i j"
proof (induction U)
  case Nil
  show ?case by (simp add: crossTotal_def)
next
  case (Cons p U)
  then show ?case
    by (cases "ruleOf H theta p") (simp_all add: crossTotal_def)
qed

lemma admissiblePairs_split:
  "admissiblePairs (splitInadmissibleNodes H T) =
     admissiblePairs T @ filter (\<lambda>p. ruleOf H (separationCoeff T) p = Admissible) (unresolvedPairs T)"
  by (simp add: splitInadmissibleNodes_eq)

lemma inadmissiblePairs_split:
  "inadmissiblePairs (splitInadmissibleNodes H T) =
     inadmissiblePairs T @ filter (\<lambda>p. ruleOf H (separationCoeff T) p = Singletons \<or>
        ruleOf H (separationCoeff T) p = SmallEnough) (unresolvedPairs T)"
  by (simp add: splitInadmissibleNodes_eq)

lemma separationCoeff_split:
  "separationCoeff (splitInadmissibleNodes H T) = separationCoeff T"
  by (simp add: splitInadmissibleNodes_eq)

lemma crossTotal_pos:
  assumes "0 < crossTotal H ps i j"
  shows "\<exists>p \<in> set ps. i \<in> set (clusterIndices (H (cluster1 p))) \<and> j \<in> set (clusterIndices (H (cluster2 p)))"
proof -
  from assms obtain p where "p \<in> set ps" "0 < crossCount H p i j"
    unfolding crossTotal_def by (induction ps) (auto split: if_splits)
  then have "count_list (clusterIndices (H (cluster1 p))) i \<noteq> 0"
    and "count_list (clusterIndices (H (cluster2 p))) j \<noteq> 0"
    by (simp_all add: crossCount_def)
  then have "i \<in> set (clusterIndices (H (cluster1 p)))" and "j \<in> set (clusterIndices (H (cluster2 p)))"
    by (simp_all only: count_list_0_iff not_not)
  with \<open>p \<in> set ps\<close> show ?thesis by blast
qed

lemma crossTotal_split:
  assumes wf: "indicesFromChildren H" and th: "separationCoeff T = theta"
  shows "crossTotal H (unresolvedPairs (splitInadmissibleNodes H T)) i j +
         storedTotal H (splitInadmissibleNodes H T) i j +
         crossTotal H (filter (\<lambda>p. ruleOf H theta p = Dropped) (unresolvedPairs T)) i j =
         crossTotal H (unresolvedPairs T) i j + storedTotal H T i j"
proof -
  let ?U = "unresolvedPairs T"
  let ?S = "filter (\<lambda>p. ruleOf H theta p = Subdivided) ?U"
  let ?T' = "splitInadmissibleNodes H T"
  have "crossTotal H (unresolvedPairs ?T') i j = crossTotal H ?S i j"
    unfolding unresolvedPairs_split th
    by (rule crossTotal_concat_childPairs [OF wf, of _ theta]) simp
  then show ?thesis
    unfolding storedTotal_def admissiblePairs_split inadmissiblePairs_split th crossTotal_append
    using crossTotal_by_rule [of H ?U i j theta] by simp
qed

lemma partitionInv_step:
  assumes wf: "indicesFromChildren H" and inv: "partitionInv H theta r i j T"
  shows "partitionInv H theta r i j (splitInadmissibleNodes H T)"
proof -
  let ?U = "unresolvedPairs T"
  let ?D = "filter (\<lambda>p. ruleOf H theta p = Dropped) ?U"
  let ?T' = "splitInadmissibleNodes H T"
  have th: "separationCoeff T = theta" using inv by (simp add: partitionInv_def)
  have gen: "\<forall>p \<in> set ?U. generated H theta r p" using inv by (simp add: partitionInv_def)
  note total = crossTotal_split [OF wf th, of i j]
  have gen': "\<forall>q \<in> set (unresolvedPairs ?T'). generated H theta r q"
    unfolding unresolvedPairs_split th using gen by (auto intro: generated.child)
  have le: "crossTotal H ?U i j + storedTotal H T i j \<le> 1"
    and eq: "crossTotal H ?U i j + storedTotal H T i j = 1 \<or> droppedAt H theta r i j"
    using inv by (simp_all add: partitionInv_def)
  have "crossTotal H (unresolvedPairs ?T') i j + storedTotal H ?T' i j = 1 \<or> droppedAt H theta r i j"
  proof (cases "0 < crossTotal H ?D i j")
    case True
    from crossTotal_pos [OF this] gen have "droppedAt H theta r i j"
      unfolding droppedAt_def by auto
    then show ?thesis ..
  next
    case False
    then show ?thesis using total eq by auto
  qed
  moreover have "crossTotal H (unresolvedPairs ?T') i j + storedTotal H ?T' i j \<le> 1"
    using total le by linarith
  ultimately show ?thesis
    using gen' th by (simp add: partitionInv_def separationCoeff_split)
qed

lemma resolvePairs_invariant:
  "resolvePairs H T = Some T' \<Longrightarrow> indicesFromChildren H \<Longrightarrow> partitionInv H theta r i j T \<Longrightarrow>
     partitionInv H theta r i j T' \<and> unresolvedPairs T' = []"
proof (induction H T T' rule: resolvePairs.raw_induct [rotated, consumes 1, case_names step])
  case (step f H T T')
  note IH = step.IH and eq = step.hyps and wf = step.prems(1) and inv = step.prems(2)
  show ?case
  proof (cases "0 < length (unresolvedPairs T)")
    case True
    with eq have "f H (splitInadmissibleNodes H T) = Some T'" by simp
    from IH [OF this wf partitionInv_step [OF wf inv]] show ?thesis .
  next
    case False
    with eq have "T' = T" by simp
    with False inv show ?thesis by simp
  qed
qed

lemma generated_descends:
  "generated H theta r p \<Longrightarrow> descends H theta \<lparr>cluster1 = r, cluster2 = r\<rparr> p"
  by (induction rule: generated.induct) (auto intro: descends.intros)

lemma descends_top:
  "descends H theta q p \<Longrightarrow>
     q = p \<or> (ruleOf H theta q = Subdivided \<and> (\<exists>q' \<in> set (childPairs H q). descends H theta q' p))"
proof (induction rule: descends.induct)
  case self
  show ?case by simp
next
  case (child p p')
  from child.IH show ?case
  proof
    assume "q = p"
    with child.hyps(2,3) show ?thesis by (auto intro: descends.self)
  next
    assume "ruleOf H theta q = Subdivided \<and> (\<exists>q' \<in> set (childPairs H q). descends H theta q' p)"
    with child.hyps(2,3) show ?thesis by (auto intro: descends.child)
  qed
qed

lemma crossCount_le_crossTotal: "p \<in> set ps \<Longrightarrow> crossCount H p i j \<le> crossTotal H ps i j"
  unfolding crossTotal_def by (induction ps) auto

lemma droppedInv_step:
  assumes wf: "indicesFromChildren H" and inv: "partitionInv H theta r i j T"
    and dr: "droppedInv H theta r i j T"
  shows "droppedInv H theta r i j (splitInadmissibleNodes H T)"
  unfolding droppedInv_def
proof (intro allI impI)
  let ?U = "unresolvedPairs T"
  let ?D = "filter (\<lambda>p. ruleOf H theta p = Dropped) ?U"
  let ?T' = "splitInadmissibleNodes H T"
  fix p
  assume p: "generated H theta r p \<and> ruleOf H theta p = Dropped \<and> 0 < crossCount H p i j"
  have th: "separationCoeff T = theta" using inv by (simp add: partitionInv_def)
  have le: "crossTotal H ?U i j + storedTotal H T i j \<le> 1"
    using inv by (simp add: partitionInv_def)
  note total = crossTotal_split [OF wf th, of i j]
  from dr p have "crossTotal H ?U i j + storedTotal H T i j = 0 \<or> (\<exists>q \<in> set ?U. descends H theta q p)"
    by (simp add: droppedInv_def)
  then show "crossTotal H (unresolvedPairs ?T') i j + storedTotal H ?T' i j = 0 \<or>
      (\<exists>q \<in> set (unresolvedPairs ?T'). descends H theta q p)"
  proof
    assume "crossTotal H ?U i j + storedTotal H T i j = 0"
    with total show ?thesis by simp
  next
    assume "\<exists>q \<in> set ?U. descends H theta q p"
    then obtain q where q: "q \<in> set ?U" "descends H theta q p" by blast
    from descends_top [OF q(2)] show ?thesis
    proof
      assume "q = p"
      with q(1) p have "p \<in> set ?D" by simp
      from crossCount_le_crossTotal [OF this, of H i j] p have "1 \<le> crossTotal H ?D i j" by simp
      with total le have "crossTotal H (unresolvedPairs ?T') i j + storedTotal H ?T' i j = 0"
        by linarith
      then show ?thesis ..
    next
      assume "ruleOf H theta q = Subdivided \<and> (\<exists>q' \<in> set (childPairs H q). descends H theta q' p)"
      then obtain q' where "ruleOf H theta q = Subdivided" "q' \<in> set (childPairs H q)"
        "descends H theta q' p" by blast
      with q(1) have "\<exists>q' \<in> set (unresolvedPairs ?T'). descends H theta q' p"
        unfolding unresolvedPairs_split th by auto
      then show ?thesis ..
    qed
  qed
qed

lemma resolvePairs_dropped:
  "resolvePairs H T = Some T' \<Longrightarrow> indicesFromChildren H \<Longrightarrow> partitionInv H theta r i j T \<Longrightarrow>
     droppedInv H theta r i j T \<Longrightarrow> droppedInv H theta r i j T'"
proof (induction H T T' rule: resolvePairs.raw_induct [rotated, consumes 1, case_names step])
  case (step f H T T')
  show ?case
  proof (cases "0 < length (unresolvedPairs T)")
    case True
    with step.hyps have "f H (splitInadmissibleNodes H T) = Some T'" by simp
    from step.IH [OF this step.prems(1) partitionInv_step [OF step.prems(1,2)]
        droppedInv_step [OF step.prems]]
    show ?thesis .
  next
    case False
    with step.hyps have "T' = T" by simp
    with step.prems(3) show ?thesis by simp
  qed
qed

lemma count_list_distinct: "distinct xs \<Longrightarrow> x \<in> set xs \<Longrightarrow> count_list xs x = 1"
  by (induction xs) auto

text \<open>
  Claim C1. Let the constructor return, in a hierarchy in which the indices of a node
  with more than one element are those of its children, and let no index occur twice at
  the root. Then for all indices \<open>i\<close>, \<open>j\<close> of the root, the ordered pair
  \<open>(i, j)\<close> occurs exactly once in the cross-products of all stored pairs, admissible
  and inadmissible together, unless it was dropped with a pair of the worklist of which
  one side has zero elements; then it occurs in none. So no ordered pair lies in two
  stored pairs, or twice in one, or in both collections.
\<close>

theorem classification_partitions:
  assumes built: "newBlockClusterTree H numVertices tree theta a b e = Some T"
    and wf: "\<forall>p. 1 < NumElements (H p) \<longrightarrow>
              mset (clusterIndices (H p)) =
              mset (concat (map (\<lambda>c. clusterIndices (H c)) (children (H p))))"
    and dist: "distinct (clusterIndices (H tree))"
    and i: "i \<in> set (clusterIndices (H tree))" and j: "j \<in> set (clusterIndices (H tree))"
  shows "storedTotal H T i j = (if droppedAt H theta tree i j then 0 else 1)"
proof -
  let ?T0 = "\<lparr>alpha = a, beta = b, separationCoeff = theta, epsilon = e, tree_root = tree,
           nVerts = numVertices, constraintsSet = False, mode = MatrixOnly,
           admissiblePairs = [], inadmissiblePairs = [],
           unresolvedPairs = [\<lparr>cluster1 = tree, cluster2 = tree\<rparr>]\<rparr>"
  from built obtain T' where T': "resolvePairs H ?T0 = Some T'" and T: "T = T'\<lparr>mode := MatrixOnly\<rparr>"
    by (auto simp: newBlockClusterTree_def)
  have wf': "indicesFromChildren H" using wf by (simp add: indicesFromChildren_def)
  have c: "count_list (clusterIndices (H tree)) k = 1" if "k \<in> set (clusterIndices (H tree))" for k
    using dist that by (rule count_list_distinct)
  have p0: "partitionInv H theta tree i j ?T0"
    by (simp add: partitionInv_def storedTotal_def crossTotal_def crossCount_def c [OF i] c [OF j]
        generated.root)
  have d0: "droppedInv H theta tree i j ?T0"
    by (auto simp: droppedInv_def dest: generated_descends)
  from resolvePairs_invariant [OF T' wf' p0]
  have inv: "partitionInv H theta tree i j T'" and emp: "unresolvedPairs T' = []"
    by simp_all
  from resolvePairs_dropped [OF T' wf' p0 d0] have dr: "droppedInv H theta tree i j T'" .
  have st: "storedTotal H T i j = storedTotal H T' i j" by (simp add: T storedTotal_def)
  show ?thesis
  proof (cases "droppedAt H theta tree i j")
    case True
    then obtain p where "generated H theta tree p" "ruleOf H theta p = Dropped"
      "i \<in> set (clusterIndices (H (cluster1 p)))" "j \<in> set (clusterIndices (H (cluster2 p)))"
      by (auto simp: droppedAt_def)
    moreover from this(3,4) have "0 < crossCount H p i j"
      using count_list_0_iff [of "clusterIndices (H (cluster1 p))" i]
        count_list_0_iff [of "clusterIndices (H (cluster2 p))" j]
      by (simp add: crossCount_def)
    ultimately have "storedTotal H T' i j = 0"
      using dr emp by (auto simp: droppedInv_def crossTotal_def)
    with True st show ?thesis by simp
  next
    case False
    with inv emp have "storedTotal H T' i j = 1"
      by (simp add: partitionInv_def crossTotal_def)
    with False st show ?thesis by simp
  qed
qed

section \<open>The exact near-field product\<close>

lemma length_addRows [simp]: "length (addRows r d) = length r"
  by (simp add: addRows_def)

lemma nth_addRows [simp]: "k < length r \<Longrightarrow> addRows r d ! k = r ! k + d k"
  by (simp add: addRows_def)

lemma addRows_addRows: "addRows (addRows r d) d' = addRows r (\<lambda>k. d k + d' k)"
  by (rule nth_equalityI) (simp_all add: add.assoc)

lemma addRows_zero: "addRows r (\<lambda>k. 0) = r"
  by (rule nth_equalityI) simp_all

lemma AddToRow_addRows:
  "AddToRow r e t = (if e < length r then Some (addRows r (\<lambda>k. if k = e then t else 0)) else None)"
  by (auto simp: AddToRow_def intro!: nth_equalityI)

lemma foldM_addRows:
  assumes "\<And>x r. f x r = (if P x (length r) then Some (addRows r (d x)) else None)"
  shows "foldM f xs r =
     (if list_all (\<lambda>x. P x (length r)) xs
      then Some (addRows r (\<lambda>k. sum_list (map (\<lambda>x. d x k) xs))) else None)"
proof (induction xs arbitrary: r)
  case Nil
  show ?case by (simp add: addRows_zero)
next
  case (Cons x xs)
  show ?case
  proof (cases "P x (length r)")
    case True
    then have "foldM f (x # xs) r = foldM f xs (addRows r (d x))"
      by (simp only: foldM.simps assms [of x r] if_True Option.bind.simps)
    also note Cons.IH [of "addRows r (d x)"]
    finally show ?thesis using True by (simp add: addRows_addRows)
  next
    case False
    then have "foldM f (x # xs) r = None"
      by (simp only: foldM.simps assms [of x r] if_False Option.bind.simps)
    then show ?thesis using False by simp
  qed
qed

lemma foldM_sums:
  fixes g :: "'a \<Rightarrow> real" and h :: "'a \<Rightarrow> Vector3"
  assumes "\<And>x acc. f x acc = (if P x then Some (fst acc + g x, snd acc + h x) else None)"
  shows "foldM f xs acc =
     (if list_all P xs then Some (fst acc + sum_list (map g xs), snd acc + sum_list (map h xs))
      else None)"
proof (induction xs arbitrary: acc)
  case Nil
  show ?case by simp
next
  case (Cons x xs)
  show ?case
  proof (cases "P x")
    case True
    then have "foldM f (x # xs) acc = foldM f xs (fst acc + g x, snd acc + h x)"
      by (simp only: foldM.simps assms [of x acc] if_True Option.bind.simps)
    also note Cons.IH [of "(fst acc + g x, snd acc + h x)"]
    finally show ?thesis using True by (simp add: add.assoc)
  next
    case False
    then have "foldM f (x # xs) acc = None"
      by (simp only: foldM.simps assms [of x acc] if_False Option.bind.simps)
    then show ?thesis using False by simp
  qed
qed

lemma foldM_sum:
  fixes h :: "'a \<Rightarrow> Vector3"
  assumes "\<And>x acc. f x acc = (if P x then Some (acc + h x) else None)"
  shows "foldM f xs acc = (if list_all P xs then Some (acc + sum_list (map h xs)) else None)"
proof (induction xs arbitrary: acc)
  case Nil
  show ?case by simp
next
  case (Cons x xs)
  show ?case
  proof (cases "P x")
    case True
    then have "foldM f (x # xs) acc = foldM f xs (acc + h x)"
      by (simp only: foldM.simps assms [of x acc] if_True Option.bind.simps)
    also note Cons.IH [of "acc + h x"]
    finally show ?thesis using True by (simp add: add.assoc)
  next
    case False
    then have "foldM f (x # xs) acc = None"
      by (simp only: foldM.simps assms [of x acc] if_False Option.bind.simps)
    then show ?thesis using False by simp
  qed
qed

lemma norm3_nonneg: "0 \<le> norm3 v"
  by (simp add: norm3_def)

lemma norm3_eq_0_iff: "norm3 v = 0 \<longleftrightarrow> v = 0"
proof -
  have "(vec_x v)\<^sup>2 + (vec_y v)\<^sup>2 + (vec_z v)\<^sup>2 = 0 \<longleftrightarrow> vec_x v = 0 \<and> vec_y v = 0 \<and> vec_z v = 0"
    by (smt (verit) sum_power2_eq_zero_iff zero_le_power2 power2_eq_iff_nonneg)
  then show ?thesis
    by (cases v) (simp add: norm3_def zero_Vector3_def)
qed

lemma pow_norm3:
  "pow (norm3 v) s = (if s = 0 \<or> 0 < s \<or> v \<noteq> 0 then Some (power_of (norm3 v) s) else None)"
  using norm3_nonneg [of v] norm3_eq_0_iff [of v]
  by (auto simp: pow_def power_of_def)

lemma power_of_eq_0_iff: "0 \<le> x \<Longrightarrow> power_of x s = 0 \<longleftrightarrow> s \<noteq> 0 \<and> x = 0"
  by (auto simp: power_of_def)

lemma af_ij_eq:
  "af_ij curves s i j = (if afDefined curves s i j then Some (afValue curves s i j) else None)"
proof -
  let ?v = "midpoint curves i - midpoint curves j"
  have z: "?v = 0 \<longleftrightarrow> midpoint curves i = midpoint curves j" by simp
  show ?thesis
    unfolding af_ij_def Let_def afDefined_def afValue_def
      segmentLength_def [symmetric] midpoint_def [symmetric] pow_norm3 quotient_def
    using power_of_eq_0_iff [OF norm3_nonneg, of ?v s] norm3_eq_0_iff [of ?v] z
    by (auto simp: power_of_def)
qed

lemma AfFullProduct_row_eq:
  "AfFullProduct_row curves s v i j acc =
     (if afDefined curves s i j \<and> j < length v
      then Some (fst acc + afValue curves s i j, snd acc + afValue curves s i j *\<^sub>R (v ! j))
      else None)"
  by (simp add: AfFullProduct_row_def af_ij_eq SelectRow_def coeff_def)

lemma sum_list_if_eq:
  fixes f :: "nat \<Rightarrow> Vector3"
  shows "(\<Sum>i\<leftarrow>is. if k = i then f i else 0) = real (count_list is k) *\<^sub>R f k"
  by (induction "is") (auto simp: scaleR_left_distrib)

lemma AfFullProduct_eq:
  "AfFullProduct curves H T pair v r =
     (if fullDefined curves H (beta T - alpha T) (length v) (length r) pair
      then Some (addRows r (fullDelta curves H (beta T - alpha T) v pair)) else None)"
proof -
  let ?s = "beta T - alpha T" and ?js = "clusterIndices (H (cluster2 pair))"
  have inner: "foldM (AfFullProduct_row curves ?s v i) ?js (0, 0) =
      (if list_all (\<lambda>j. afDefined curves ?s i j \<and> j < length v) ?js
       then Some (\<Sum>j\<leftarrow>?js. afValue curves ?s i j, \<Sum>j\<leftarrow>?js. afValue curves ?s i j *\<^sub>R (v ! j))
       else None)" for i
    using foldM_sums [where f = "AfFullProduct_row curves ?s v i"
        and P = "\<lambda>j. afDefined curves ?s i j \<and> j < length v"
        and g = "\<lambda>j. afValue curves ?s i j" and h = "\<lambda>j. afValue curves ?s i j *\<^sub>R (v ! j)"
        and xs = ?js and acc = "(0, 0)", OF AfFullProduct_row_eq]
    by simp
  have body: "do {
        acc \<leftarrow> foldM (AfFullProduct_row curves ?s v i) ?js (0, 0);
        row \<leftarrow> SelectRow v i;
        AddToRow r' i (2 *\<^sub>R (fst acc *\<^sub>R row - snd acc))
      } = (if rowDefined curves ?s (length v) ?js i \<and> i < length r'
           then Some (addRows r' (\<lambda>k. if k = i then nearField curves ?s v ?js i else 0))
           else None)" for i r'
    by (simp add: inner SelectRow_def coeff_def AddToRow_addRows rowDefined_def nearField_def cong del: if_weak_cong)
  show ?thesis
    unfolding AfFullProduct_def Let_def
    by (subst foldM_addRows [where P = "\<lambda>i m. rowDefined curves ?s (length v) ?js i \<and> i < m"
          and d = "\<lambda>i k. if k = i then nearField curves ?s v ?js i else 0", OF body])
       (simp add: fullDefined_def fullDelta_def sum_list_if_eq)
qed

lemma MultiplyInadmissible_eq:
  "MultiplyInadmissible curves H T v r =
     (if list_all (fullDefined curves H (beta T - alpha T) (length v) (length r)) (inadmissiblePairs T)
      then Some (addRows r (\<lambda>k. \<Sum>pair\<leftarrow>inadmissiblePairs T.
                    fullDelta curves H (beta T - alpha T) v pair k))
      else None)"
  unfolding MultiplyInadmissible_def
  by (rule foldM_addRows) (rule AfFullProduct_eq)

text \<open>
  Claim C2. Where \<open>MultiplyInadmissible\<close> returns, it has added to every row \<open>k\<close> of
  the output, for every inadmissible pair and every occurrence of \<open>k\<close> in the indices of
  side 1, twice the difference of the row sum of a(k, j) times v(k) and the sum of
  a(k, j) v(j), \<open>j\<close> ranging over the indices of side 2. Here a(i, j) is zero when the two
  elements are identical or adjacent (their segments share an end point, by \<open>Next\<close> in
  either direction) and else the product of the two segment lengths over the distance of
  the two midpoints to the power \<open>beta - alpha\<close>.
\<close>

theorem near_field_product:
  assumes "MultiplyInadmissible curves H T v b = Some b'"
  shows "length b' = length b \<and>
    (\<forall>k<length b. b' ! k = b ! k +
       (\<Sum>pair\<leftarrow>inadmissiblePairs T.
          real (count_list (clusterIndices (H (cluster1 pair))) k) *\<^sub>R
            (2 *\<^sub>R ((\<Sum>j\<leftarrow>clusterIndices (H (cluster2 pair)). afValue curves (beta T - alpha T) k j) *\<^sub>R (v ! k) -
                   (\<Sum>j\<leftarrow>clusterIndices (H (cluster2 pair)).
                      afValue curves (beta T - alpha T) k j *\<^sub>R (v ! j)))))) \<and>
    (\<forall>i j. afValue curves (beta T - alpha T) i j =
       (if GetCurvePoint curves i = GetCurvePoint curves j \<or>
           Next curves (GetCurvePoint curves i) = GetCurvePoint curves j \<or>
           GetCurvePoint curves i = Next curves (GetCurvePoint curves j) \<or>
           Next curves (GetCurvePoint curves i) = Next curves (GetCurvePoint curves j)
        then 0
        else segmentLength curves i * segmentLength curves j /
             power_of (norm3 (midpoint curves i - midpoint curves j)) (beta T - alpha T)))"
proof -
  from assms have
    "b' = addRows b (\<lambda>k. \<Sum>pair\<leftarrow>inadmissiblePairs T. fullDelta curves H (beta T - alpha T) v pair k)"
    by (simp add: MultiplyInadmissible_eq split: if_splits)
  then show ?thesis
    by (simp add: fullDelta_def nearField_def afValue_def isNeighbors_def)
qed

section \<open>The monopole product\<close>

lemma a_IJ_eq:
  "a_IJ H T pair =
     (if farDefined H (beta T - alpha T) pair then Some (farScalar H (beta T - alpha T) pair) else None)"
proof -
  let ?v = "centerOfMass (H (cluster1 pair)) - centerOfMass (H (cluster2 pair))"
  have z: "?v = 0 \<longleftrightarrow> centerOfMass (H (cluster1 pair)) = centerOfMass (H (cluster2 pair))" by simp
  show ?thesis
    unfolding a_IJ_def farDefined_def farScalar_def pow_norm3 quotient_def
    using power_of_eq_0_iff [OF norm3_nonneg, of ?v "beta T - alpha T"] norm3_eq_0_iff [of ?v] z
    by (auto simp: power_of_def)
qed

lemma sum_list_if_scaleR:
  fixes X :: "nat \<Rightarrow> Vector3"
  shows "(\<Sum>i\<leftarrow>is. if k = e i then (w i * 2) *\<^sub>R X (e i) else 0) =
         (2 * (\<Sum>i\<leftarrow>is. if e i = k then w i else 0)) *\<^sub>R X k"
  by (induction "is") (auto simp: scaleR_left_distrib algebra_simps)

lemma list_all_conj: "list_all (\<lambda>x. P x \<and> Q x) xs \<longleftrightarrow> list_all P xs \<and> list_all Q xs"
  by (induction xs) auto

lemma AfApproxProduct_eq:
  "AfApproxProduct H T pair v r =
     (if approxDefined H (beta T - alpha T) (length v) (length r) pair
      then Some (addRows r (approxDelta H (beta T - alpha T) v pair)) else None)"
proof -
  let ?s = "beta T - alpha T"
  let ?wi = "clusterMassVector (H (cluster1 pair))" and ?wj = "clusterMassVector (H (cluster2 pair))"
  let ?ei = "clusterIndices (H (cluster1 pair))" and ?ej = "clusterIndices (H (cluster2 pair))"
  have jloop: "foldM (\<lambda>j acc. do {
                       e \<leftarrow> coeff ?ej j;
                       row \<leftarrow> SelectRow v e;
                       Some (acc + (?wj ! j) *\<^sub>R row)
                     }) [0..<length ?wj] 0 =
      (if sideDefined H (length v) (cluster2 pair) then Some (weightedSum H (cluster2 pair) v) else None)"
    by (subst foldM_sum [where P = "\<lambda>j. j < length ?ej \<and> ?ej ! j < length v"
          and h = "\<lambda>j. (?wj ! j) *\<^sub>R (v ! (?ej ! j))"])
       (simp_all add: coeff_def SelectRow_def sideDefined_def weightedSum_def)
  have iloop: "foldM (\<lambda>i result. do {
                 e \<leftarrow> coeff ?ei i;
                 row \<leftarrow> SelectRow v e;
                 AddToRow result e ((?wi ! i * 2) *\<^sub>R (a1 *\<^sub>R row - aJ))
               }) [0..<length ?wi] r =
      (if sideDefined H (length v) (cluster1 pair) \<and> sideDefined H (length r) (cluster1 pair)
       then Some (addRows r (\<lambda>k. (2 * massAt H (cluster1 pair) k) *\<^sub>R (a1 *\<^sub>R (v ! k) - aJ)))
       else None)" for a1 aJ
    by (subst foldM_addRows [where
          P = "\<lambda>i m. (i < length ?ei \<and> ?ei ! i < length v) \<and> (i < length ?ei \<and> ?ei ! i < m)"
          and d = "\<lambda>i k. if k = ?ei ! i then (?wi ! i * 2) *\<^sub>R (a1 *\<^sub>R (v ! (?ei ! i)) - aJ) else 0"])
       (auto simp: coeff_def SelectRow_def AddToRow_addRows sideDefined_def massAt_def
          sum_list_if_scaleR [where X = "\<lambda>e. a1 *\<^sub>R (v ! e) - aJ"] list_all_conj)
  show ?thesis
    unfolding AfApproxProduct_def Let_def a_IJ_eq jloop iloop
    by (simp add: approxDefined_def approxDelta_def)
qed

lemma MultiplyAdmissible_eq:
  "MultiplyAdmissible H T v r =
     (if list_all (approxDefined H (beta T - alpha T) (length v) (length r)) (admissiblePairs T)
      then Some (addRows r (\<lambda>k. \<Sum>pair\<leftarrow>admissiblePairs T.
                    approxDelta H (beta T - alpha T) v pair k))
      else None)"
  unfolding MultiplyAdmissible_def
  by (rule foldM_addRows) (rule AfApproxProduct_eq)

section \<open>The propagation computes the monopole product\<close>

lemma colSum_mset: "mset ks = mset ks' \<Longrightarrow> colSum M v ks = colSum M v ks'"
proof -
  assume "mset ks = mset ks'"
  then have "mset (map (\<lambda>k. M ! k * v ! k) ks) = mset (map (\<lambda>k. M ! k * v ! k) ks')"
    by (metis mset_map)
  then have "sum_mset (mset (map (\<lambda>k. M ! k * v ! k) ks)) = sum_mset (mset (map (\<lambda>k. M ! k * v ! k) ks'))"
    by simp
  then show ?thesis by (simp only: sum_mset_sum_list colSum_def)
qed

lemma colSum_concat: "colSum M v (concat kss) = (\<Sum>ks\<leftarrow>kss. colSum M v ks)"
  by (induction kss) (simp_all add: colSum_def)

lemma subtreeOK_range: "subtreeOK H M d p \<Longrightarrow> k \<in> set (clusterIndices (H p)) \<Longrightarrow> k < length M"
proof (induction d arbitrary: p)
  case 0
  then show ?case by simp
next
  case (Suc d)
  show ?case
  proof (cases "IsLeaf (H p)")
    case True
    with Suc.prems show ?thesis by simp
  next
    case False
    with Suc.prems have m: "mset (clusterIndices (H p)) =
        mset (concat (map (\<lambda>c. clusterIndices (H c)) (children (H p))))"
      and cs: "list_all (subtreeOK H M d) (children (H p))" by simp_all
    from m have "set (clusterIndices (H p)) = set (concat (map (\<lambda>c. clusterIndices (H c)) (children (H p))))"
      by (rule mset_eq_setD)
    with Suc.prems(2) obtain c where "c \<in> set (children (H p))" "k \<in> set (clusterIndices (H c))"
      by auto
    with cs Suc.IH show ?thesis by (auto simp: list_all_iff)
  qed
qed

lemma SetVIs_children:
  assumes step: "\<And>c S1. c \<in> set cs \<Longrightarrow> SetVIs H v c S1 = Some (setV V (N c) S1)"
    and self: "\<And>c. c \<in> set cs \<Longrightarrow> c \<in> N c \<and> p \<notin> N c"
  shows "foldM (\<lambda>child S1. do {
                 S2 \<leftarrow> SetVIs H v child S1;
                 Some (S2(p := (S2 p)\<lparr>V_I := V_I (S2 p) + V_I (S2 child)\<rparr>))
               }) cs S =
         Some ((setV V (\<Union>c\<in>set cs. N c) S)(p := (S p)\<lparr>V_I := V_I (S p) + (\<Sum>c\<leftarrow>cs. V c)\<rparr>))"
  using assms
proof (induction cs arbitrary: S)
  case Nil
  show ?case by (simp add: setV_def)
next
  case (Cons c cs)
  have c: "c \<in> N c" "p \<notin> N c" using Cons.prems(2) [of c] by simp_all
  let ?S' = "(setV V (N c) S)(p := (S p)\<lparr>V_I := V_I (S p) + V c\<rparr>)"
  have "foldM (\<lambda>child S1. do {
                 S2 \<leftarrow> SetVIs H v child S1;
                 Some (S2(p := (S2 p)\<lparr>V_I := V_I (S2 p) + V_I (S2 child)\<rparr>))
               }) (c # cs) S =
        foldM (\<lambda>child S1. do {
                 S2 \<leftarrow> SetVIs H v child S1;
                 Some (S2(p := (S2 p)\<lparr>V_I := V_I (S2 p) + V_I (S2 child)\<rparr>))
               }) cs ?S'"
    using c by (simp add: Cons.prems(1) setV_def)
  also have "\<dots> = Some ((setV V (\<Union>c\<in>set cs. N c) ?S')
        (p := (?S' p)\<lparr>V_I := V_I (?S' p) + (\<Sum>c\<leftarrow>cs. V c)\<rparr>))"
    by (rule Cons.IH) (simp_all add: Cons.prems)
  also have "(setV V (\<Union>c\<in>set cs. N c) ?S')
        (p := (?S' p)\<lparr>V_I := V_I (?S' p) + (\<Sum>c\<leftarrow>cs. V c)\<rparr>) =
      (setV V (\<Union>c\<in>set (c # cs). N c) S)
        (p := (S p)\<lparr>V_I := V_I (S p) + (\<Sum>c\<leftarrow>c # cs. V c)\<rparr>)"
    by (rule ext) (auto simp: setV_def add.assoc)
  finally show ?case .
qed

lemma SetVIs_result:
  assumes "subtreeOK H M d p" and "distinct (nodesBelow H d p)" and "length v = length M"
  shows "SetVIs H v p S =
           Some (setV (\<lambda>q. colSum M v (clusterIndices (H q))) (set (nodesBelow H d p)) S)"
  using assms(1,2)
proof (induction d arbitrary: p S)
  case 0
  then show ?case by simp
next
  case (Suc d)
  let ?V = "\<lambda>q. colSum M v (clusterIndices (H q))"
  show ?case
  proof (cases "IsLeaf (H p)")
    case True
    with Suc.prems(1) have "clusterIndices (H p) = [VertexIndex (H p)]"
      "totalMass (H p) = M ! VertexIndex (H p)" "VertexIndex (H p) < length M"
      by simp_all
    with True assms(3) show ?thesis
      by (subst SetVIs.simps) (simp add: coeff_def setV_def colSum_def fun_eq_iff)
  next
    case False
    let ?cs = "children (H p)"
    from False Suc.prems(1) have m: "mset (clusterIndices (H p)) =
        mset (concat (map (\<lambda>c. clusterIndices (H c)) ?cs))"
      and cs: "list_all (subtreeOK H M d) ?cs" by simp_all
    from False Suc.prems(2) have dist: "distinct (concat (map (nodesBelow H d) ?cs))"
      and p: "p \<notin> set (concat (map (nodesBelow H d) ?cs))" by simp_all
    have step: "SetVIs H v c S1 = Some (setV ?V (set (nodesBelow H d c)) S1)"
      if "c \<in> set ?cs" for c S1
    proof (rule Suc.IH)
      show "subtreeOK H M d c" using cs that by (simp add: list_all_iff)
      show "distinct (nodesBelow H d c)" using dist that by (auto simp: distinct_concat_iff)
    qed
    have self: "c \<in> set (nodesBelow H d c) \<and> p \<notin> set (nodesBelow H d c)" if "c \<in> set ?cs" for c
      using p that by (cases d) auto
    have V: "?V p = (\<Sum>c\<leftarrow>?cs. ?V c)"
      by (simp add: colSum_mset [OF m] colSum_concat comp_def)
    have "SetVIs H v p S =
        Some ((setV ?V (\<Union>c\<in>set ?cs. set (nodesBelow H d c)) (S(p := (S p)\<lparr>V_I := 0\<rparr>)))
          (p := ((S(p := (S p)\<lparr>V_I := 0\<rparr>)) p)\<lparr>V_I := V_I ((S(p := (S p)\<lparr>V_I := 0\<rparr>)) p) + (\<Sum>c\<leftarrow>?cs. ?V c)\<rparr>))"
      using False
      by (subst SetVIs.simps) (simp only: if_False SetVIs_children [where N = "\<lambda>c. set (nodesBelow H d c)" and V = ?V, OF step self])
    also have "\<dots> = Some (setV ?V (set (nodesBelow H (Suc d) p)) S)"
      using False p by (auto simp: setV_def V fun_eq_iff)
    finally show ?thesis .
  qed
qed

lemma length_downRows [simp]: "length (downRows H A d p x b) = length b"
  by (simp add: downRows_def)

lemma subtreeOK_subset:
  "subtreeOK H M d p \<Longrightarrow> q \<in> set (nodesBelow H d p) \<Longrightarrow>
     set (clusterIndices (H q)) \<subseteq> set (clusterIndices (H p))"
proof (induction d arbitrary: p)
  case 0
  then show ?case by simp
next
  case (Suc d)
  show ?case
  proof (cases "q = p")
    case True
    then show ?thesis by simp
  next
    case False
    with Suc.prems(2) have nl: "\<not> IsLeaf (H p)" by (auto split: if_splits)
    with False Suc.prems(2) obtain c where c: "c \<in> set (children (H p))" "q \<in> set (nodesBelow H d c)"
      by auto
    from nl Suc.prems(1) have m: "mset (clusterIndices (H p)) =
        mset (concat (map (\<lambda>c. clusterIndices (H c)) (children (H p))))"
      and cs: "list_all (subtreeOK H M d) (children (H p))" by simp_all
    have "set (clusterIndices (H q)) \<subseteq> set (clusterIndices (H c))"
      using Suc.IH [of c] c cs by (simp add: list_all_iff)
    also have "\<dots> \<subseteq> set (concat (map (\<lambda>c. clusterIndices (H c)) (children (H p))))"
      using c(1) by auto
    also have "\<dots> = set (clusterIndices (H p))"
      using mset_eq_setD [OF m] by simp
    finally show ?thesis .
  qed
qed

lemma sum_list_zero:
  fixes f :: "'a \<Rightarrow> real"
  shows "(\<forall>x\<in>set xs. f x = 0) \<Longrightarrow> sum_list (map f xs) = 0"
  by (induction xs) auto

lemma pathSum_outside:
  assumes "subtreeOK H M d p" and "k \<notin> set (clusterIndices (H p))"
  shows "pathSum H A d p k = 0"
proof -
  have "\<forall>q \<in> set (nodesBelow H d p). k \<notin> set (clusterIndices (H q))"
    using subtreeOK_subset [OF assms(1)] assms(2) by blast
  then show ?thesis
    unfolding pathSum_def by (intro sum_list_zero) simp
qed

lemma PropagateBIs_children:
  assumes step: "\<And>c x b S. c \<in> set cs \<Longrightarrow> length b = n \<Longrightarrow> \<forall>q. aIJ_VJ (S q) = A q \<Longrightarrow>
        \<exists>S'. PropagateBIs H c x (b, S) = Some (downRows H A d c x b, S') \<and>
             (\<forall>q. aIJ_VJ (S' q) = A q) \<and> (\<forall>q. q \<notin> N c \<longrightarrow> S' q = S q)"
    and self: "\<And>c. c \<in> set cs \<Longrightarrow> p \<notin> N c"
    and out: "\<And>c k. c \<in> set cs \<Longrightarrow> k \<notin> set (clusterIndices (H c)) \<Longrightarrow> pathSum H A d c k = 0"
    and disj: "distinct (concat (map (\<lambda>c. clusterIndices (H c)) cs))"
    and len: "length b = n" and A: "\<forall>q. aIJ_VJ (S q) = A q"
  shows "\<exists>S'. foldM (\<lambda>child st1. PropagateBIs H child (B_I (snd st1 p)) st1) cs (b, S) =
           Some (map (\<lambda>k. if k \<in> (\<Union>c\<in>set cs. set (clusterIndices (H c)))
                          then B_I (S p) + (\<Sum>c\<leftarrow>cs. pathSum H A d c k) else b ! k) [0..<length b], S') \<and>
           (\<forall>q. aIJ_VJ (S' q) = A q) \<and> (\<forall>q. q \<notin> (\<Union>c\<in>set cs. N c) \<longrightarrow> S' q = S q)"
  using assms
proof (induction cs arbitrary: b S)
  case Nil
  show ?case using Nil.prems(6) by (simp add: map_nth)
next
  case (Cons c cs)
  from Cons.prems(1) [of c b S "B_I (S p)"] Cons.prems(5,6)
  obtain S1 where S1: "PropagateBIs H c (B_I (S p)) (b, S) = Some (downRows H A d c (B_I (S p)) b, S1)"
    "\<forall>q. aIJ_VJ (S1 q) = A q" "\<forall>q. q \<notin> N c \<longrightarrow> S1 q = S q"
    by auto
  let ?b1 = "downRows H A d c (B_I (S p)) b"
  have p: "S1 p = S p" using S1(3) Cons.prems(2) [of c] by simp
  have "\<exists>S'. foldM (\<lambda>child st1. PropagateBIs H child (B_I (snd st1 p)) st1) cs (?b1, S1) =
           Some (map (\<lambda>k. if k \<in> (\<Union>c\<in>set cs. set (clusterIndices (H c)))
                          then B_I (S1 p) + (\<Sum>c\<leftarrow>cs. pathSum H A d c k) else ?b1 ! k) [0..<length ?b1], S') \<and>
           (\<forall>q. aIJ_VJ (S' q) = A q) \<and> (\<forall>q. q \<notin> (\<Union>c\<in>set cs. N c) \<longrightarrow> S' q = S1 q)"
  proof (rule Cons.IH)
    show "\<exists>S'. PropagateBIs H c' x (b', S0) = Some (downRows H A d c' x b', S') \<and>
             (\<forall>q. aIJ_VJ (S' q) = A q) \<and> (\<forall>q. q \<notin> N c' \<longrightarrow> S' q = S0 q)"
      if "c' \<in> set cs" "length b' = n" "\<forall>q. aIJ_VJ (S0 q) = A q" for c' x b' S0
      using Cons.prems(1) [of c' b' S0 x] that by simp
    show "p \<notin> N c'" if "c' \<in> set cs" for c' using Cons.prems(2) that by simp
    show "pathSum H A d c' k = 0" if "c' \<in> set cs" "k \<notin> set (clusterIndices (H c'))" for c' k
      using Cons.prems(3) that by simp
    show "distinct (concat (map (\<lambda>c. clusterIndices (H c)) cs))" using Cons.prems(4) by simp
    show "length ?b1 = n" using Cons.prems(5) by simp
    show "\<forall>q. aIJ_VJ (S1 q) = A q" by (rule S1(2))
  qed
  then obtain S' where S':
    "foldM (\<lambda>child st1. PropagateBIs H child (B_I (snd st1 p)) st1) cs (?b1, S1) =
       Some (map (\<lambda>k. if k \<in> (\<Union>c\<in>set cs. set (clusterIndices (H c)))
                      then B_I (S1 p) + (\<Sum>c\<leftarrow>cs. pathSum H A d c k) else ?b1 ! k) [0..<length ?b1], S')"
    "\<forall>q. aIJ_VJ (S' q) = A q" "\<forall>q. q \<notin> (\<Union>c\<in>set cs. N c) \<longrightarrow> S' q = S1 q"
    by blast
  have rows: "map (\<lambda>k. if k \<in> (\<Union>c\<in>set cs. set (clusterIndices (H c)))
                      then B_I (S1 p) + (\<Sum>c\<leftarrow>cs. pathSum H A d c k) else ?b1 ! k) [0..<length ?b1] =
      map (\<lambda>k. if k \<in> (\<Union>c\<in>set (c # cs). set (clusterIndices (H c)))
                          then B_I (S p) + (\<Sum>c\<leftarrow>c # cs. pathSum H A d c k) else b ! k) [0..<length b]"
  proof (rule nth_equalityI)
    show "length (map (\<lambda>k. if k \<in> (\<Union>c\<in>set cs. set (clusterIndices (H c)))
                      then B_I (S1 p) + (\<Sum>c\<leftarrow>cs. pathSum H A d c k) else ?b1 ! k) [0..<length ?b1]) =
      length (map (\<lambda>k. if k \<in> (\<Union>c\<in>set (c # cs). set (clusterIndices (H c)))
                          then B_I (S p) + (\<Sum>c\<leftarrow>c # cs. pathSum H A d c k) else b ! k) [0..<length b])"
      by simp
  next
    fix k
    assume "k < length (map (\<lambda>k. if k \<in> (\<Union>c\<in>set cs. set (clusterIndices (H c)))
                      then B_I (S1 p) + (\<Sum>c\<leftarrow>cs. pathSum H A d c k) else ?b1 ! k) [0..<length ?b1])"
    then have k: "k < length b" by simp
    have rest0: "(\<Sum>c\<leftarrow>cs. pathSum H A d c k) = 0" if "k \<in> set (clusterIndices (H c))"
    proof (rule sum_list_zero, rule ballI)
      fix c' assume c': "c' \<in> set cs"
      then have "k \<notin> set (clusterIndices (H c'))"
        using that Cons.prems(4) by auto
      then show "pathSum H A d c' k = 0" using Cons.prems(3) [of c' k] c' by simp
    qed
    have first0: "pathSum H A d c k = 0" if "k \<notin> set (clusterIndices (H c))"
      using Cons.prems(3) [of c k] that by simp
    show "map (\<lambda>k. if k \<in> (\<Union>c\<in>set cs. set (clusterIndices (H c)))
                      then B_I (S1 p) + (\<Sum>c\<leftarrow>cs. pathSum H A d c k) else ?b1 ! k) [0..<length ?b1] ! k =
      map (\<lambda>k. if k \<in> (\<Union>c\<in>set (c # cs). set (clusterIndices (H c)))
                          then B_I (S p) + (\<Sum>c\<leftarrow>c # cs. pathSum H A d c k) else b ! k) [0..<length b] ! k"
    proof -
      have dj: "k \<notin> set (clusterIndices (H c'))"
        if "k \<in> set (clusterIndices (H c))" "c' \<in> set cs" for c'
        using that Cons.prems(4) by auto
      show ?thesis using k p rest0 first0 dj by (auto simp: downRows_def)
    qed
  qed
  have "foldM (\<lambda>child st1. PropagateBIs H child (B_I (snd st1 p)) st1) (c # cs) (b, S) =
      foldM (\<lambda>child st1. PropagateBIs H child (B_I (snd st1 p)) st1) cs (?b1, S1)"
    by (simp add: S1(1))
  moreover have "\<forall>q. q \<notin> (\<Union>c\<in>set (c # cs). N c) \<longrightarrow> S' q = S q"
    using S'(3) S1(3) by auto
  ultimately show ?case
    using S'(1,2) rows by (intro exI [of _ S']) simp
qed

lemma sum_list_map_concat:
  fixes f :: "'a \<Rightarrow> real"
  shows "sum_list (map f (concat xss)) = (\<Sum>xs\<leftarrow>xss. sum_list (map f xs))"
  by (induction xss) simp_all

lemma PropagateBIs_result:
  assumes "subtreeOK H M d p" and "distinct (nodesBelow H d p)"
    and "distinct (clusterIndices (H p))" and "length b = length M" and "\<forall>q. aIJ_VJ (S q) = A q"
  shows "\<exists>S'. PropagateBIs H p x (b, S) = Some (downRows H A d p x b, S') \<and>
           (\<forall>q. aIJ_VJ (S' q) = A q) \<and> (\<forall>q. q \<notin> set (nodesBelow H d p) \<longrightarrow> S' q = S q)"
  using assms
proof (induction d arbitrary: p x b S)
  case 0
  then show ?case by simp
next
  case (Suc d)
  let ?S0 = "S(p := (S p)\<lparr>B_I := x + aIJ_VJ (S p)\<rparr>)"
  have A0: "\<forall>q. aIJ_VJ (?S0 q) = A q" using Suc.prems(5) by simp
  show ?case
  proof (cases "IsLeaf (H p)")
    case True
    with Suc.prems(1) have leaf: "clusterIndices (H p) = [VertexIndex (H p)]"
      "VertexIndex (H p) < length M" by simp_all
    have "b[VertexIndex (H p) := x + A p] = downRows H A (Suc d) p x b"
      using True leaf Suc.prems(4)
      by (intro nth_equalityI) (auto simp: downRows_def pathSum_def)
    then have "PropagateBIs H p x (b, S) = Some (downRows H A (Suc d) p x b, ?S0)"
      using True leaf Suc.prems(4,5) by (subst PropagateBIs.simps) (simp add: Let_def)
    moreover have "\<forall>q. q \<notin> set (nodesBelow H (Suc d) p) \<longrightarrow> ?S0 q = S q"
      by simp
    ultimately show ?thesis using A0 by blast
  next
    case False
    let ?cs = "children (H p)"
    from False Suc.prems(1) have m: "mset (clusterIndices (H p)) =
        mset (concat (map (\<lambda>c. clusterIndices (H c)) ?cs))"
      and cs: "list_all (subtreeOK H M d) ?cs" by simp_all
    from False Suc.prems(2) have dist: "distinct (concat (map (nodesBelow H d) ?cs))"
      and p: "p \<notin> set (concat (map (nodesBelow H d) ?cs))" by simp_all
    have dc: "distinct (concat (map (\<lambda>c. clusterIndices (H c)) ?cs))"
      using Suc.prems(3) m by (metis mset_eq_imp_distinct_iff)
    have ok: "subtreeOK H M d c" if "c \<in> set ?cs" for c
      using cs that by (simp add: list_all_iff)
    have "\<exists>S'. foldM (\<lambda>child st1. PropagateBIs H child (B_I (snd st1 p)) st1) ?cs (b, ?S0) =
           Some (map (\<lambda>k. if k \<in> (\<Union>c\<in>set ?cs. set (clusterIndices (H c)))
                          then B_I (?S0 p) + (\<Sum>c\<leftarrow>?cs. pathSum H A d c k) else b ! k) [0..<length b], S') \<and>
           (\<forall>q. aIJ_VJ (S' q) = A q) \<and>
           (\<forall>q. q \<notin> (\<Union>c\<in>set ?cs. set (nodesBelow H d c)) \<longrightarrow> S' q = ?S0 q)"
    proof (rule PropagateBIs_children [where n = "length M"])
      show "\<exists>S'. PropagateBIs H c y (b', S1) = Some (downRows H A d c y b', S') \<and>
             (\<forall>q. aIJ_VJ (S' q) = A q) \<and> (\<forall>q. q \<notin> set (nodesBelow H d c) \<longrightarrow> S' q = S1 q)"
        if "c \<in> set ?cs" "length b' = length M" "\<forall>q. aIJ_VJ (S1 q) = A q" for c y b' S1
      proof (rule Suc.IH [OF ok [OF that(1)] _ _ that(2,3)])
        show "distinct (nodesBelow H d c)" using dist that(1) by (auto simp: distinct_concat_iff)
        show "distinct (clusterIndices (H c))" using dc that(1) by (auto simp: distinct_concat_iff)
      qed
      show "p \<notin> set (nodesBelow H d c)" if "c \<in> set ?cs" for c using p that by auto
      show "pathSum H A d c k = 0" if "c \<in> set ?cs" "k \<notin> set (clusterIndices (H c))" for c k
        using pathSum_outside [OF ok [OF that(1)] that(2)] .
      show "distinct (concat (map (\<lambda>c. clusterIndices (H c)) ?cs))" by (rule dc)
      show "length b = length M" by (rule Suc.prems(4))
      show "\<forall>q. aIJ_VJ (?S0 q) = A q" by (rule A0)
    qed
    then obtain S' where S':
      "foldM (\<lambda>child st1. PropagateBIs H child (B_I (snd st1 p)) st1) ?cs (b, ?S0) =
           Some (map (\<lambda>k. if k \<in> (\<Union>c\<in>set ?cs. set (clusterIndices (H c)))
                          then B_I (?S0 p) + (\<Sum>c\<leftarrow>?cs. pathSum H A d c k) else b ! k) [0..<length b], S')"
      "\<forall>q. aIJ_VJ (S' q) = A q"
      "\<forall>q. q \<notin> (\<Union>c\<in>set ?cs. set (nodesBelow H d c)) \<longrightarrow> S' q = ?S0 q"
      by blast
    have idx: "(\<Union>c\<in>set ?cs. set (clusterIndices (H c))) = set (clusterIndices (H p))"
      using mset_eq_setD [OF m] by simp
    have ps: "pathSum H A (Suc d) p k =
        (if k \<in> set (clusterIndices (H p)) then A p else 0) + (\<Sum>c\<leftarrow>?cs. pathSum H A d c k)" for k
      using False by (simp add: pathSum_def sum_list_map_concat comp_def)
    have rows: "map (\<lambda>k. if k \<in> (\<Union>c\<in>set ?cs. set (clusterIndices (H c)))
                          then B_I (?S0 p) + (\<Sum>c\<leftarrow>?cs. pathSum H A d c k) else b ! k) [0..<length b] =
        downRows H A (Suc d) p x b"
      unfolding idx downRows_def using Suc.prems(5) by (simp add: ps)
    have "PropagateBIs H p x (b, S) =
        foldM (\<lambda>child st1. PropagateBIs H child (B_I (snd st1 p)) st1) ?cs (b, ?S0)"
      using False by (subst PropagateBIs.simps) (simp add: Let_def)
    moreover have "\<forall>q. q \<notin> set (nodesBelow H (Suc d) p) \<longrightarrow> S' q = S q"
      using S'(3) False by auto
    ultimately show ?thesis
      using S'(1,2) rows by (intro exI [of _ S']) simp
  qed
qed

lemma SetBIs_loop:
  "foldM (\<lambda>pair S. do {
             a \<leftarrow> a_IJ H T pair;
             Some (S(cluster1 pair := (S (cluster1 pair))
                \<lparr>aIJ_VJ := aIJ_VJ (S (cluster1 pair)) + a * V_I (S (cluster2 pair))\<rparr>))
           }) ps S =
     (if list_all (farDefined H (beta T - alpha T)) ps
      then Some (\<lambda>q. (S q)\<lparr>aIJ_VJ := aIJ_VJ (S q) + pending H (beta T - alpha T) (\<lambda>c. V_I (S c)) ps q\<rparr>)
      else None)"
proof (induction ps arbitrary: S)
  case Nil
  show ?case by (simp add: pending_def)
next
  case (Cons p ps)
  let ?s = "beta T - alpha T"
  let ?f = "\<lambda>pair S. do {
             a \<leftarrow> a_IJ H T pair;
             Some (S(cluster1 pair := (S (cluster1 pair))
                \<lparr>aIJ_VJ := aIJ_VJ (S (cluster1 pair)) + a * V_I (S (cluster2 pair))\<rparr>))
           }"
  show ?case
  proof (cases "farDefined H ?s p")
    case False
    then show ?thesis by (simp add: a_IJ_eq)
  next
    case True
    let ?S1 = "S(cluster1 p := (S (cluster1 p))
        \<lparr>aIJ_VJ := aIJ_VJ (S (cluster1 p)) + farScalar H ?s p * V_I (S (cluster2 p))\<rparr>)"
    have V: "(\<lambda>c. V_I (?S1 c)) = (\<lambda>c. V_I (S c))" by (rule ext) simp
    have "foldM ?f (p # ps) S = foldM ?f ps ?S1"
      using True by (simp add: a_IJ_eq)
    also note Cons.IH [of ?S1]
    also have "(\<lambda>q. (?S1 q)\<lparr>aIJ_VJ := aIJ_VJ (?S1 q) + pending H ?s (\<lambda>c. V_I (?S1 c)) ps q\<rparr>) =
        (\<lambda>q. (S q)\<lparr>aIJ_VJ := aIJ_VJ (S q) + pending H ?s (\<lambda>c. V_I (S c)) (p # ps) q\<rparr>)"
      unfolding V by (rule ext) (simp add: pending_def)
    finally show ?thesis using True by simp
  qed
qed

lemma sum_list_indicator:
  fixes g :: real
  assumes "distinct qs" and "c \<in> set qs"
  shows "(\<Sum>q\<leftarrow>qs. if P q then (if c = q then g else 0) else 0) = (if P c then g else 0)"
  using assms by (induction qs) (auto intro: sum_list_zero [where f = "\<lambda>q. if P q then (if c = q then g else 0) else 0", simplified])

lemma pathSum_pending:
  assumes "distinct (nodesBelow H d tree)" and "pairsInside H d tree ps"
  shows "pathSum H (pending H s V ps) d tree k =
     (\<Sum>p\<leftarrow>ps. if k \<in> set (clusterIndices (H (cluster1 p)))
               then farScalar H s p * V (cluster2 p) else 0)"
  using assms(2)
proof (induction ps)
  case Nil
  show ?case by (simp add: pathSum_def pending_def)
next
  case (Cons p ps)
  then have in1: "cluster1 p \<in> set (nodesBelow H d tree)" and rest: "pairsInside H d tree ps"
    by (simp_all add: pairsInside_def)
  let ?g = "farScalar H s p * V (cluster2 p)"
  have "pathSum H (pending H s V (p # ps)) d tree k =
      (\<Sum>q\<leftarrow>nodesBelow H d tree. (if k \<in> set (clusterIndices (H q)) then (if cluster1 p = q then ?g else 0) else 0)
          + (if k \<in> set (clusterIndices (H q)) then pending H s V ps q else 0))"
    unfolding pathSum_def pending_def
    by (intro arg_cong [where f = sum_list] map_cong) auto
  also have "\<dots> = (\<Sum>q\<leftarrow>nodesBelow H d tree. if k \<in> set (clusterIndices (H q)) then (if cluster1 p = q then ?g else 0) else 0)
      + pathSum H (pending H s V ps) d tree k"
    by (simp add: sum_list_addf pathSum_def)
  also have "\<dots> = (if k \<in> set (clusterIndices (H (cluster1 p))) then ?g else 0)
      + pathSum H (pending H s V ps) d tree k"
    by (simp only: sum_list_indicator [OF assms(1) in1, where P = "\<lambda>q. k \<in> set (clusterIndices (H q))"])
  finally show ?case using Cons.IH [OF rest] by simp
qed

lemma MultiplyAf_eq:
  assumes c: "hierarchyContract H T d" and len: "length v = length (fullMasses (H (tree_root T)))"
    and far: "list_all (farDefined H (beta T - alpha T)) (admissiblePairs T)"
  shows "\<exists>S'. MultiplyAf H T v S =
     Some (map (\<lambda>k. fullMasses (H (tree_root T)) ! k *
                    farRow H (beta T - alpha T) (fullMasses (H (tree_root T))) v (admissiblePairs T) k)
             [0..<length (fullMasses (H (tree_root T)))], S')"
proof -
  let ?M = "fullMasses (H (tree_root T))" and ?r = "tree_root T" and ?s = "beta T - alpha T"
  let ?ps = "admissiblePairs T"
  let ?V = "\<lambda>q. colSum ?M v (clusterIndices (H q))"
  let ?S1 = "recursivelyZeroMVFields S"
  let ?S2 = "setV ?V (set (nodesBelow H d ?r)) ?S1"
  let ?A = "pending H ?s (\<lambda>c. V_I (?S2 c)) ?ps"
  let ?S3 = "\<lambda>q. (?S2 q)\<lparr>aIJ_VJ := aIJ_VJ (?S2 q) + ?A q\<rparr>"
  from c have ok: "subtreeOK H ?M d ?r" and dn: "distinct (nodesBelow H d ?r)"
    and di: "distinct (clusterIndices (H ?r))" and inside: "pairsInside H d ?r ?ps"
    by (simp_all add: hierarchyContract_def)
  have up: "SetVIs H v ?r ?S1 = Some ?S2"
    by (rule SetVIs_result [OF ok dn len])
  have loop: "foldM (\<lambda>pair S. do {
             a \<leftarrow> a_IJ H T pair;
             Some (S(cluster1 pair := (S (cluster1 pair))
                \<lparr>aIJ_VJ := aIJ_VJ (S (cluster1 pair)) + a * V_I (S (cluster2 pair))\<rparr>))
           }) ?ps ?S2 = Some ?S3"
    using far by (simp add: SetBIs_loop)
  have A3: "\<forall>q. aIJ_VJ (?S3 q) = ?A q"
    by (simp add: setV_def recursivelyZeroMVFields_def)
  from PropagateBIs_result [OF ok dn di _ A3, of "replicate (length v) 0" 0] len
  obtain S' where down: "PropagateBIs H ?r 0 (replicate (length v) 0, ?S3) =
      Some (downRows H ?A d ?r 0 (replicate (length v) 0), S')"
    by auto
  have A: "pathSum H ?A d ?r k = farRow H ?s ?M v ?ps k" for k
  proof -
    have "(if k \<in> set (clusterIndices (H (cluster1 p)))
           then farScalar H ?s p * V_I (?S2 (cluster2 p)) else 0) =
          (if k \<in> set (clusterIndices (H (cluster1 p)))
           then farScalar H ?s p * colSum ?M v (clusterIndices (H (cluster2 p))) else 0)"
      if "p \<in> set ?ps" for p
      using inside that by (simp add: pairsInside_def list_all_iff setV_def)
    then show ?thesis
      unfolding pathSum_pending [OF dn inside] farRow_def
      by (intro arg_cong [where f = sum_list] map_cong) simp_all
  qed
  have rows: "downRows H ?A d ?r 0 (replicate (length v) 0) =
      map (\<lambda>k. farRow H ?s ?M v ?ps k) [0..<length ?M]"
    using len pathSum_outside [OF ok, of _ ?A]
    by (intro nth_equalityI) (auto simp: downRows_def A)
  have "asDiagonal_times ?M (map (\<lambda>k. farRow H ?s ?M v ?ps k) [0..<length ?M]) =
      Some (map (\<lambda>k. ?M ! k * farRow H ?s ?M v ?ps k) [0..<length ?M])"
    unfolding asDiagonal_times_def
    by (simp, intro nth_equalityI) simp_all
  then have "MultiplyAf H T v S =
      Some (map (\<lambda>k. ?M ! k * farRow H ?s ?M v ?ps k) [0..<length ?M], S')"
    unfolding MultiplyAf_def Let_def SetBIs_def
    by (simp add: up loop down rows)
  then show ?thesis by blast
qed

lemma vec_sel_simps:
  "vec_x (a + b) = vec_x a + vec_x b" "vec_y (a + b) = vec_y a + vec_y b" "vec_z (a + b) = vec_z a + vec_z b"
  "vec_x (a - b) = vec_x a - vec_x b" "vec_y (a - b) = vec_y a - vec_y b" "vec_z (a - b) = vec_z a - vec_z b"
  "vec_x (s *\<^sub>R a) = s * vec_x a" "vec_y (s *\<^sub>R a) = s * vec_y a" "vec_z (s *\<^sub>R a) = s * vec_z a"
  "vec_x 0 = 0" "vec_y 0 = 0" "vec_z 0 = 0"
  by (simp_all add: plus_Vector3_def minus_Vector3_def scaleR_Vector3_def zero_Vector3_def)

lemma vec_sel_sum_list:
  "vec_x (sum_list (map f xs)) = (\<Sum>x\<leftarrow>xs. vec_x (f x))"
  "vec_y (sum_list (map f xs)) = (\<Sum>x\<leftarrow>xs. vec_y (f x))"
  "vec_z (sum_list (map f xs)) = (\<Sum>x\<leftarrow>xs. vec_z (f x))"
  by (induction xs) (simp_all add: vec_sel_simps)

lemma subtreeOK_node:
  "subtreeOK H M d p \<Longrightarrow> distinct (clusterIndices (H p)) \<Longrightarrow> q \<in> set (nodesBelow H d p) \<Longrightarrow>
     clusterMassVector (H q) = map (\<lambda>k. M ! k) (clusterIndices (H q)) \<and>
     distinct (clusterIndices (H q)) \<and> (\<forall>k\<in>set (clusterIndices (H q)). k < length M)"
proof (induction d arbitrary: p)
  case 0
  then show ?case by simp
next
  case (Suc d)
  show ?case
  proof (cases "q = p")
    case True
    with Suc.prems(1,2) subtreeOK_range [OF Suc.prems(1)] show ?thesis by simp
  next
    case False
    with Suc.prems(3) have nl: "\<not> IsLeaf (H p)" by (auto split: if_splits)
    with False Suc.prems(3) obtain c where c: "c \<in> set (children (H p))" "q \<in> set (nodesBelow H d c)"
      by auto
    from nl Suc.prems(1) have m: "mset (clusterIndices (H p)) =
        mset (concat (map (\<lambda>c. clusterIndices (H c)) (children (H p))))"
      and cs: "list_all (subtreeOK H M d) (children (H p))" by simp_all
    have "distinct (concat (map (\<lambda>c. clusterIndices (H c)) (children (H p))))"
      using Suc.prems(2) m by (metis mset_eq_imp_distinct_iff)
    then have "distinct (clusterIndices (H c))" using c(1) by (auto simp: distinct_concat_iff)
    moreover have "subtreeOK H M d c" using cs c(1) by (simp add: list_all_iff)
    ultimately show ?thesis using Suc.IH c(2) by blast
  qed
qed

lemma sum_list_nth_map:
  fixes g :: "'c \<Rightarrow> 'a \<Rightarrow> 'b::comm_monoid_add"
  shows "(\<Sum>j\<leftarrow>[0..<length (map f xs)]. g (map f xs ! j) (xs ! j)) = (\<Sum>x\<leftarrow>xs. g (f x) x)"
proof -
  have "map (\<lambda>j. g (map f xs ! j) (xs ! j)) [0..<length (map f xs)] = map (\<lambda>x. g (f x) x) xs"
    by (intro nth_equalityI) simp_all
  then show ?thesis by (simp only:)
qed

lemma weightedSum_contract:
  assumes "clusterMassVector (H c) = map (\<lambda>k. M ! k) (clusterIndices (H c))"
  shows "weightedSum H c v = vecSum M v (clusterIndices (H c))"
  unfolding weightedSum_def vecSum_def assms
  by (rule sum_list_nth_map [where g = "\<lambda>w e. w *\<^sub>R (v ! e)"])

lemma sum_list_pick:
  fixes f :: "'a \<Rightarrow> real"
  shows "distinct xs \<Longrightarrow> (\<Sum>e\<leftarrow>xs. if e = k then f e else 0) = (if k \<in> set xs then f k else 0)"
proof (induction xs)
  case Nil
  show ?case by simp
next
  case (Cons x xs)
  show ?case
  proof (cases "x = k")
    case True
    then have "k \<notin> set xs" using Cons.prems by simp
    then have "(\<Sum>e\<leftarrow>xs. if e = k then f e else 0) = 0"
      by (intro sum_list_zero) auto
    then show ?thesis using True by simp
  next
    case False
    then show ?thesis using Cons by simp
  qed
qed

lemma massAt_contract:
  assumes "clusterMassVector (H c) = map (\<lambda>k. M ! k) (clusterIndices (H c))"
    and "distinct (clusterIndices (H c))"
  shows "massAt H c k = (if k \<in> set (clusterIndices (H c)) then M ! k else 0)"
proof -
  have "massAt H c k = (\<Sum>e\<leftarrow>clusterIndices (H c). if e = k then M ! e else 0)"
    unfolding massAt_def assms(1)
    by (rule sum_list_nth_map [where g = "\<lambda>w e. if e = k then w else 0"])
  also have "\<dots> = (if k \<in> set (clusterIndices (H c)) then M ! k else 0)"
    by (rule sum_list_pick [OF assms(2)])
  finally show ?thesis .
qed

lemma sum_masses_contract:
  assumes "clusterMassVector (H c) = map (\<lambda>k. M ! k) (clusterIndices (H c))"
    and "\<forall>k\<in>set (clusterIndices (H c)). k < n"
  shows "sum_list (clusterMassVector (H c)) = colSum M (replicate n 1) (clusterIndices (H c))"
proof -
  have "sum_list (map (\<lambda>k. M ! k) (clusterIndices (H c))) =
      sum_list (map (\<lambda>k. M ! k * replicate n 1 ! k) (clusterIndices (H c)))"
    using assms(2) by (intro arg_cong [where f = sum_list] map_cong) simp_all
  then show ?thesis by (simp only: assms(1) colSum_def)
qed

lemma vecSum_components:
  assumes "\<forall>k\<in>set ks. k < length v"
  shows "vec_x (vecSum M v ks) = colSum M (map vec_x v) ks"
    and "vec_y (vecSum M v ks) = colSum M (map vec_y v) ks"
    and "vec_z (vecSum M v ks) = colSum M (map vec_z v) ks"
  using assms by (induction ks) (simp_all add: vecSum_def colSum_def vec_sel_simps)

lemma far_sum:
  fixes m x :: real
  shows "(\<Sum>p\<leftarrow>ps. (2 * (if P p then m else 0)) * (f p * s p * x - f p * c p)) =
     2 * ((m * (\<Sum>p\<leftarrow>ps. if P p then f p * s p else 0)) * x -
          m * (\<Sum>p\<leftarrow>ps. if P p then f p * c p else 0))"
  by (induction ps) (auto simp: algebra_simps)

lemma approxDelta_contract:
  assumes c: "hierarchyContract H T d" and p: "p \<in> set (admissiblePairs T)"
    and len: "length v = length (fullMasses (H (tree_root T)))"
  shows "approxDelta H s v p k =
     (2 * (if k \<in> set (clusterIndices (H (cluster1 p))) then fullMasses (H (tree_root T)) ! k else 0)) *\<^sub>R
       ((farScalar H s p *
           colSum (fullMasses (H (tree_root T))) (replicate (length v) 1) (clusterIndices (H (cluster2 p)))) *\<^sub>R (v ! k) -
        farScalar H s p *\<^sub>R vecSum (fullMasses (H (tree_root T))) v (clusterIndices (H (cluster2 p))))"
proof -
  let ?M = "fullMasses (H (tree_root T))" and ?r = "tree_root T"
  from c have ok: "subtreeOK H ?M d ?r" and di: "distinct (clusterIndices (H ?r))"
    and inside: "pairsInside H d ?r (admissiblePairs T)"
    by (simp_all add: hierarchyContract_def)
  from inside p have in1: "cluster1 p \<in> set (nodesBelow H d ?r)" and in2: "cluster2 p \<in> set (nodesBelow H d ?r)"
    by (simp_all add: pairsInside_def list_all_iff)
  note n1 = subtreeOK_node [OF ok di in1] and n2 = subtreeOK_node [OF ok di in2]
  have r2: "\<forall>k\<in>set (clusterIndices (H (cluster2 p))). k < length v" using n2 len by simp
  have m1: "massAt H (cluster1 p) k =
      (if k \<in> set (clusterIndices (H (cluster1 p))) then ?M ! k else 0)"
    using n1 by (intro massAt_contract) simp_all
  have w2: "weightedSum H (cluster2 p) v = vecSum ?M v (clusterIndices (H (cluster2 p)))"
    using n2 by (intro weightedSum_contract) simp
  have s2: "sum_list (clusterMassVector (H (cluster2 p))) =
      colSum ?M (replicate (length v) 1) (clusterIndices (H (cluster2 p)))"
    using n2 r2 by (intro sum_masses_contract) simp_all
  show ?thesis
    unfolding approxDelta_def m1 w2 s2 ..
qed

lemma setCol_eq: "length c = length A \<Longrightarrow> setCol upd A c = Some (map2 upd A c)"
  by (simp add: setCol_def)

lemma fast_refines_direct:
  assumes c: "hierarchyContract H T d"
    and nv: "NumVertices curves = length (fullMasses (H (tree_root T)))"
    and lv: "length v = NumVertices curves" and lb: "length b = length v"
    and direct: "MultiplyAdmissible H T v (replicate (length v) 0) = Some r"
  shows "\<exists>S'. MultiplyAdmissibleFast curves H T v (b, S) = Some (r, S')"
proof -
  let ?M = "fullMasses (H (tree_root T))" and ?s = "beta T - alpha T" and ?ps = "admissiblePairs T"
  let ?n = "length ?M"
  let ?row = "\<lambda>w k. ?M ! k * farRow H ?s ?M w ?ps k"
  have len: "length v = ?n" using nv lv by simp
  from direct have def: "list_all (approxDefined H ?s (length v) (length v)) ?ps"
    and r: "r = addRows (replicate (length v) 0) (\<lambda>k. \<Sum>pair\<leftarrow>?ps. approxDelta H ?s v pair k)"
    by (simp_all add: MultiplyAdmissible_eq split: if_splits)
  from def have far: "list_all (farDefined H ?s) ?ps"
    by (simp add: list_all_iff approxDefined_def)
  obtain S1 where h: "MultiplyAf H T (replicate ?n 1) S = Some (map (?row (replicate ?n 1)) [0..<?n], S1)"
    using MultiplyAf_eq [OF c _ far, of "replicate ?n 1" S] by auto
  obtain S2 where c0: "MultiplyAf H T (map vec_x v) S1 = Some (map (?row (map vec_x v)) [0..<?n], S2)"
    using MultiplyAf_eq [OF c _ far, of "map vec_x v" S1] len by auto
  obtain S3 where c1: "MultiplyAf H T (map vec_y v) S2 = Some (map (?row (map vec_y v)) [0..<?n], S3)"
    using MultiplyAf_eq [OF c _ far, of "map vec_y v" S2] len by auto
  obtain S4 where c2: "MultiplyAf H T (map vec_z v) S3 = Some (map (?row (map vec_z v)) [0..<?n], S4)"
    using MultiplyAf_eq [OF c _ far, of "map vec_z v" S3] len by auto
  let ?b1 = "map2 (\<lambda>row c. Vector3 c (vec_y row) (vec_z row)) b (map (?row (map vec_x v)) [0..<?n])"
  let ?b2 = "map2 (\<lambda>row c. Vector3 (vec_x row) c (vec_z row)) ?b1 (map (?row (map vec_y v)) [0..<?n])"
  let ?b3 = "map2 (\<lambda>row c. Vector3 (vec_x row) (vec_y row) c) ?b2 (map (?row (map vec_z v)) [0..<?n])"
  have l3: "length ?b3 = ?n" using lb len by simp
  have b3: "?b3 ! k = Vector3 (?row (map vec_x v) k) (?row (map vec_y v) k) (?row (map vec_z v) k)"
    if "k < ?n" for k
    using that lb len by simp
  have fast: "MultiplyAdmissibleFast curves H T v (b, S) =
      Some (map (\<lambda>k. 2 *\<^sub>R ((map (?row (replicate ?n 1)) [0..<?n] ! k) *\<^sub>R (v ! k) - ?b3 ! k)) [0..<length ?b3], S4)"
    unfolding MultiplyAdmissibleFast_def Let_def
    using lb len by (simp add: nv h c0 c1 c2 setCol_eq)
  have rows: "map (\<lambda>k. 2 *\<^sub>R ((map (?row (replicate ?n 1)) [0..<?n] ! k) *\<^sub>R (v ! k) - ?b3 ! k)) [0..<length ?b3] = r"
  proof (rule nth_equalityI)
    show "length (map (\<lambda>k. 2 *\<^sub>R ((map (?row (replicate ?n 1)) [0..<?n] ! k) *\<^sub>R (v ! k) - ?b3 ! k)) [0..<length ?b3]) = length r"
      using l3 len by (simp add: r)
  next
    fix k
    assume "k < length (map (\<lambda>k. 2 *\<^sub>R ((map (?row (replicate ?n 1)) [0..<?n] ! k) *\<^sub>R (v ! k) - ?b3 ! k)) [0..<length ?b3])"
    then have k: "k < ?n" using l3 by simp
    have rk: "r ! k = (\<Sum>p\<leftarrow>?ps.
        (2 * (if k \<in> set (clusterIndices (H (cluster1 p))) then ?M ! k else 0)) *\<^sub>R
          ((farScalar H ?s p * colSum ?M (replicate ?n 1) (clusterIndices (H (cluster2 p)))) *\<^sub>R (v ! k) -
           farScalar H ?s p *\<^sub>R vecSum ?M v (clusterIndices (H (cluster2 p)))))"
    proof -
      have "r ! k = (\<Sum>p\<leftarrow>?ps. approxDelta H ?s v p k)"
        using k len by (simp add: r zero_Vector3_def [symmetric])
      also have "\<dots> = (\<Sum>p\<leftarrow>?ps.
        (2 * (if k \<in> set (clusterIndices (H (cluster1 p))) then ?M ! k else 0)) *\<^sub>R
          ((farScalar H ?s p * colSum ?M (replicate ?n 1) (clusterIndices (H (cluster2 p)))) *\<^sub>R (v ! k) -
           farScalar H ?s p *\<^sub>R vecSum ?M v (clusterIndices (H (cluster2 p)))))"
        using approxDelta_contract [OF c _ len, of _ ?s k] len
        by (intro arg_cong [where f = sum_list] map_cong) simp_all
      finally show ?thesis .
    qed
    have comp: "\<forall>k'\<in>set (clusterIndices (H (cluster2 p))). k' < length v" if "p \<in> set ?ps" for p
    proof -
      from c have ok: "subtreeOK H ?M d (tree_root T)" and di: "distinct (clusterIndices (H (tree_root T)))"
        and inside: "pairsInside H d (tree_root T) ?ps"
        by (simp_all add: hierarchyContract_def)
      from inside that have "cluster2 p \<in> set (nodesBelow H d (tree_root T))"
        by (simp add: pairsInside_def list_all_iff)
      from subtreeOK_node [OF ok di this] len show ?thesis by simp
    qed
    have "map (\<lambda>k. 2 *\<^sub>R ((map (?row (replicate ?n 1)) [0..<?n] ! k) *\<^sub>R (v ! k) - ?b3 ! k)) [0..<length ?b3] ! k =
        2 *\<^sub>R ((?row (replicate ?n 1) k) *\<^sub>R (v ! k) -
          Vector3 (?row (map vec_x v) k) (?row (map vec_y v) k) (?row (map vec_z v) k))"
      using k l3 b3 [OF k] by simp
    also have "\<dots> = r ! k"
      unfolding rk
      apply (rule Vector3.expand)
      apply (simp only: vec_sel_simps vec_sel_sum_list Vector3.sel)
      apply (intro conjI)
      subgoal
        unfolding farRow_def far_sum [symmetric]
        by (intro arg_cong [where f = sum_list] map_cong refl)
           (simp add: vecSum_components(1) [OF comp] algebra_simps)
      subgoal
        unfolding farRow_def far_sum [symmetric]
        by (intro arg_cong [where f = sum_list] map_cong refl)
           (simp add: vecSum_components(2) [OF comp] algebra_simps)
      subgoal
        unfolding farRow_def far_sum [symmetric]
        by (intro arg_cong [where f = sum_list] map_cong refl)
           (simp add: vecSum_components(3) [OF comp] algebra_simps)
      done
    finally show "map (\<lambda>k. 2 *\<^sub>R ((map (?row (replicate ?n 1)) [0..<?n] ! k) *\<^sub>R (v ! k) - ?b3 ! k)) [0..<length ?b3] ! k = r ! k" .
  qed
  show ?thesis using fast rows by simp
qed

section \<open>Symmetry of the implicit operator\<close>

lemma norm3_minus_commute: "norm3 (a - b) = norm3 (b - a)"
  by (simp add: norm3_def minus_Vector3_def power2_commute)

lemma isPairAdmissible_mirror: "isPairAdmissible H (mirror p) theta = isPairAdmissible H p theta"
  by (auto simp: isPairAdmissible_def mirror_def fmax_max Let_def norm3_minus_commute [of "centerOfMass (H (cluster2 p))"] max.commute)

lemma isPairSmallEnough_mirror: "isPairSmallEnough H (mirror p) = isPairSmallEnough H p"
  by (auto simp: isPairSmallEnough_def int_plus_def mirror_def Let_def add.commute)

lemma ruleOf_mirror: "ruleOf H theta (mirror p) = ruleOf H theta p"
  unfolding ruleOf_def isPairAdmissible_mirror isPairSmallEnough_mirror
  by (auto simp: mirror_def)

lemma mset_product_swap:
  "mset (concat (map (\<lambda>a. map (\<lambda>b. f a b) ys) xs)) = mset (concat (map (\<lambda>b. map (\<lambda>a. f a b) xs) ys))"
proof (induction xs)
  case Nil
  show ?case by (induction ys) simp_all
next
  case (Cons x xs)
  have "mset (concat (map (\<lambda>b. map (\<lambda>a. f a b) (x # xs)) ys)) =
      mset (map (f x) ys) + mset (concat (map (\<lambda>b. map (\<lambda>a. f a b) xs) ys))"
    by (induction ys) simp_all
  then show ?case using Cons.IH by simp
qed

lemma childPairs_mirror: "mset (childPairs H (mirror p)) = mset (map mirror (childPairs H p))"
proof -
  have "map mirror (childPairs H p) =
      concat (map (\<lambda>ci. map (\<lambda>cj. \<lparr>cluster1 = cj, cluster2 = ci\<rparr>) (children (H (cluster2 p))))
                 (children (H (cluster1 p))))"
    by (simp add: childPairs_def map_concat comp_def mirror_def)
  moreover have "childPairs H (mirror p) =
      concat (map (\<lambda>cj. map (\<lambda>ci. \<lparr>cluster1 = cj, cluster2 = ci\<rparr>) (children (H (cluster1 p))))
                 (children (H (cluster2 p))))"
    by (simp add: childPairs_def mirror_def)
  ultimately show ?thesis
    by (simp only: mset_product_swap [where f = "\<lambda>ci cj. \<lparr>cluster1 = cj, cluster2 = ci\<rparr>"])
qed

lemma mirrorClosed_filter:
  assumes "mirrorClosed ps" and "\<And>p. P (mirror p) = P p"
  shows "mirrorClosed (filter P ps)"
proof -
  have "mset (map mirror (filter P ps)) = image_mset mirror (filter_mset P (mset ps))"
    by simp
  also have "\<dots> = filter_mset P (image_mset mirror (mset ps))"
    by (simp add: filter_mset_image_mset assms(2) comp_def)
  also have "image_mset mirror (mset ps) = mset ps"
    using assms(1) by (simp add: mirrorClosed_def)
  finally show ?thesis by (simp add: mirrorClosed_def)
qed

lemma mirrorClosed_append: "mirrorClosed ps \<Longrightarrow> mirrorClosed qs \<Longrightarrow> mirrorClosed (ps @ qs)"
  by (simp add: mirrorClosed_def)

lemma mirrorClosed_childPairs:
  assumes "mirrorClosed ps"
  shows "mirrorClosed (concat (map (childPairs H) ps))"
proof -
  have "mset (map mirror (concat (map (childPairs H) ps))) =
      (\<Sum>p\<leftarrow>ps. mset (map mirror (childPairs H p)))"
    by (simp add: map_concat mset_concat comp_def)
  also have "\<dots> = (\<Sum>p\<leftarrow>ps. mset (childPairs H (mirror p)))"
    by (simp only: childPairs_mirror)
  also have "\<dots> = sum_mset (image_mset (\<lambda>p. mset (childPairs H p)) (mset (map mirror ps)))"
    by (simp add: sum_mset_sum_list [symmetric] multiset.map_comp comp_def del: sum_mset_sum_list)
  also have "\<dots> = sum_mset (image_mset (\<lambda>p. mset (childPairs H p)) (mset ps))"
    using assms by (simp only: mirrorClosed_def)
  also have "\<dots> = mset (concat (map (childPairs H) ps))"
    by (simp add: mset_concat sum_mset_sum_list [symmetric] comp_def del: sum_mset_sum_list)
  finally show ?thesis by (simp add: mirrorClosed_def)
qed

lemma mirrorInv_step: "mirrorInv T \<Longrightarrow> mirrorInv (splitInadmissibleNodes H T)"
  unfolding mirrorInv_def unresolvedPairs_split admissiblePairs_split inadmissiblePairs_split
  by (intro conjI mirrorClosed_append mirrorClosed_childPairs mirrorClosed_filter)
     (simp_all add: ruleOf_mirror)

lemma resolvePairs_mirror:
  "resolvePairs H T = Some T' \<Longrightarrow> mirrorInv T \<Longrightarrow> mirrorInv T'"
proof (induction H T T' rule: resolvePairs.raw_induct [rotated, consumes 1, case_names step])
  case (step f H T T')
  show ?case
  proof (cases "0 < length (unresolvedPairs T)")
    case True
    with step.hyps have "f H (splitInadmissibleNodes H T) = Some T'" by simp
    from step.IH [OF this mirrorInv_step [OF step.prems]] show ?thesis .
  next
    case False
    with step.hyps have "T' = T" by simp
    with step.prems show ?thesis by simp
  qed
qed

lemma constructor_mirror:
  assumes "newBlockClusterTree H numVertices tree sepCoeff a b e = Some T"
  shows "mirrorClosed (admissiblePairs T) \<and> mirrorClosed (inadmissiblePairs T)"
proof -
  let ?T0 = "\<lparr>alpha = a, beta = b, separationCoeff = sepCoeff, epsilon = e, tree_root = tree,
           nVerts = numVertices, constraintsSet = False, mode = MatrixOnly,
           admissiblePairs = [], inadmissiblePairs = [],
           unresolvedPairs = [\<lparr>cluster1 = tree, cluster2 = tree\<rparr>]\<rparr>"
  from assms obtain T' where T': "resolvePairs H ?T0 = Some T'" and T: "T = T'\<lparr>mode := MatrixOnly\<rparr>"
    by (auto simp: newBlockClusterTree_def)
  have "mirrorInv ?T0" by (simp add: mirrorInv_def mirrorClosed_def mirror_def)
  from resolvePairs_mirror [OF T' this] T show ?thesis by (simp add: mirrorInv_def)
qed

lemma sum_list_mirror:
  fixes g :: "ClusterPair \<Rightarrow> real"
  assumes "mirrorClosed ps"
  shows "(\<Sum>p\<leftarrow>ps. g (mirror p)) = (\<Sum>p\<leftarrow>ps. g p)"
proof -
  have "(\<Sum>p\<leftarrow>ps. g (mirror p)) = sum_mset (image_mset g (mset (map mirror ps)))"
    by (simp add: sum_mset_sum_list [symmetric] multiset.map_comp comp_def del: sum_mset_sum_list)
  also have "\<dots> = sum_mset (image_mset g (mset ps))"
    using assms by (simp only: mirrorClosed_def)
  also have "\<dots> = (\<Sum>p\<leftarrow>ps. g p)"
    by (simp add: sum_mset_sum_list [symmetric] del: sum_mset_sum_list)
  finally show ?thesis .
qed

lemma length_oneHot [simp]: "length (oneHot n i u) = n"
  by (simp add: oneHot_def)

lemma nth_oneHot: "k < n \<Longrightarrow> oneHot n i u ! k = (if k = i then u else 0)"
  by (auto simp: oneHot_def)

lemma sum_list_scaleR_left:
  fixes u :: Vector3
  shows "(\<Sum>x\<leftarrow>xs. f x *\<^sub>R u) = (\<Sum>x\<leftarrow>xs. f x) *\<^sub>R u"
  by (induction xs) (simp_all add: scaleR_left_distrib)

lemma sum_list_neg2:
  fixes g :: "'a \<Rightarrow> real"
  shows "(\<Sum>x\<leftarrow>xs. - (2 * g x)) = - (2 * (\<Sum>x\<leftarrow>xs. g x))"
  by (induction xs) simp_all

lemma sum_list_neg2_scaleR:
  fixes g :: "'a \<Rightarrow> real" and u :: Vector3
  shows "(\<Sum>x\<leftarrow>xs. - ((2 * g x) *\<^sub>R u)) = - ((2 * (\<Sum>x\<leftarrow>xs. g x)) *\<^sub>R u)"
  by (induction xs) (simp_all add: algebra_simps)

lemma isNeighbors_commute: "isNeighbors curves p q = isNeighbors curves q p"
  by (auto simp: isNeighbors_def)

lemma afValue_commute: "afValue curves s a b = afValue curves s b a"
  by (simp add: afValue_def isNeighbors_commute [of curves "GetCurvePoint curves a"]
      norm3_minus_commute [of "midpoint curves a"] mult.commute)

lemma farScalar_mirror: "farScalar H s (mirror p) = farScalar H s p"
  by (simp add: farScalar_def mirror_def norm3_minus_commute [of "centerOfMass (H (cluster2 p))"])

lemma nearEntry_mirror: "nearEntry curves H s (mirror p) a b = nearEntry curves H s p b a"
  by (simp add: nearEntry_def mirror_def afValue_commute [of curves s a b])

lemma farEntry_mirror: "farEntry H s (mirror p) a b = farEntry H s p b a"
  by (simp add: farEntry_def farScalar_mirror) (simp add: mirror_def)

lemma sum_list_oneHot:
  assumes "\<forall>e\<in>set es. e < n"
  shows "(\<Sum>e\<leftarrow>es. f e *\<^sub>R (oneHot n i u ! e)) = (real (count_list es i) * f i) *\<^sub>R u"
  using assms by (induction es) (auto simp: nth_oneHot scaleR_left_distrib algebra_simps)

lemma fullDelta_oneHot:
  assumes "i \<noteq> j" and "j < n" and "fullDefined curves H s n m p"
  shows "fullDelta curves H s (oneHot n i u) p j = (- (2 * nearEntry curves H s p j i)) *\<^sub>R u"
proof (cases "j \<in> set (clusterIndices (H (cluster1 p)))")
  case False
  then have "count_list (clusterIndices (H (cluster1 p))) j = 0" by (simp add: count_list_0_iff)
  then show ?thesis by (simp add: fullDelta_def nearEntry_def)
next
  case True
  with assms(3) have "\<forall>e\<in>set (clusterIndices (H (cluster2 p))). e < n"
    by (auto simp: fullDefined_def rowDefined_def list_all_iff)
  from sum_list_oneHot [OF this, of "\<lambda>e. afValue curves s j e" i u]
  show ?thesis
    using assms(1,2)
    by (simp add: fullDelta_def nearField_def nearEntry_def nth_oneHot algebra_simps)
qed

lemma weightedSum_oneHot:
  assumes "sideDefined H n c"
  shows "weightedSum H c (oneHot n i u) = massAt H c i *\<^sub>R u"
proof -
  have "(clusterMassVector (H c) ! t) *\<^sub>R (oneHot n i u ! (clusterIndices (H c) ! t)) =
        (if clusterIndices (H c) ! t = i then clusterMassVector (H c) ! t else 0) *\<^sub>R u"
    if "t \<in> set [0..<length (clusterMassVector (H c))]" for t
    using assms that by (simp add: sideDefined_def list_all_iff nth_oneHot)
  then have "weightedSum H c (oneHot n i u) =
      (\<Sum>t\<leftarrow>[0..<length (clusterMassVector (H c))].
         (if clusterIndices (H c) ! t = i then clusterMassVector (H c) ! t else 0) *\<^sub>R u)"
    unfolding weightedSum_def by (intro arg_cong [where f = sum_list] map_cong) simp_all
  then show ?thesis by (simp add: sum_list_scaleR_left massAt_def)
qed

lemma approxDelta_oneHot:
  assumes "i \<noteq> j" and "j < n" and "approxDefined H s n m p"
  shows "approxDelta H s (oneHot n i u) p j = (- (2 * farEntry H s p j i)) *\<^sub>R u"
proof -
  from assms(3) have "sideDefined H n (cluster2 p)" by (simp add: approxDefined_def)
  from weightedSum_oneHot [OF this] assms(1,2) show ?thesis
    by (simp add: approxDelta_def farEntry_def nth_oneHot algebra_simps)
qed

text \<open>
  Claim C8. For a tree the constructor built, and two different elements \<open>i\<close> and
  \<open>j\<close>: the full product (the exact product over the inadmissible pairs, then the
  monopole product over the admissible pairs added to the same output, started at zero)
  of the one-hot field at \<open>i\<close>, read at \<open>j\<close>, equals the full product of the one-hot
  field at \<open>j\<close>, read at \<open>i\<close>, wherever the four products are defined.
\<close>

theorem multiply_symmetric:
  assumes built: "newBlockClusterTree H numVertices tree sepCoeff a b e = Some T"
    and ij: "i \<noteq> j" "i < n" "j < n"
    and near_i: "MultiplyInadmissible curves H T (oneHot n i u) (replicate n 0) = Some x"
    and far_i: "MultiplyAdmissible H T (oneHot n i u) x = Some out_i"
    and near_j: "MultiplyInadmissible curves H T (oneHot n j u) (replicate n 0) = Some y"
    and far_j: "MultiplyAdmissible H T (oneHot n j u) y = Some out_j"
  shows "out_i ! j = out_j ! i"
proof -
  let ?s = "beta T - alpha T"
  from constructor_mirror [OF built]
  have ma: "mirrorClosed (admissiblePairs T)" and mi: "mirrorClosed (inadmissiblePairs T)"
    by simp_all
  have res: "out ! l = (- (2 * (\<Sum>p\<leftarrow>inadmissiblePairs T. nearEntry curves H ?s p l k))) *\<^sub>R u +
        (- (2 * (\<Sum>p\<leftarrow>admissiblePairs T. farEntry H ?s p l k))) *\<^sub>R u"
    if near: "MultiplyInadmissible curves H T (oneHot n k u) (replicate n 0) = Some z"
      and far: "MultiplyAdmissible H T (oneHot n k u) z = Some out"
      and kl: "k \<noteq> l" "l < n" for k l z out
  proof -
    from near have dn: "list_all (fullDefined curves H ?s n n) (inadmissiblePairs T)"
      and z: "z = addRows (replicate n 0) (\<lambda>l. \<Sum>p\<leftarrow>inadmissiblePairs T. fullDelta curves H ?s (oneHot n k u) p l)"
      by (simp_all add: MultiplyInadmissible_eq split: if_splits)
    from far z have df: "list_all (approxDefined H ?s n n) (admissiblePairs T)"
      and out: "out = addRows z (\<lambda>l. \<Sum>p\<leftarrow>admissiblePairs T. approxDelta H ?s (oneHot n k u) p l)"
      by (simp_all add: MultiplyAdmissible_eq split: if_splits)
    have "(\<Sum>p\<leftarrow>inadmissiblePairs T. fullDelta curves H ?s (oneHot n k u) p l) =
        (\<Sum>p\<leftarrow>inadmissiblePairs T. (- (2 * nearEntry curves H ?s p l k)) *\<^sub>R u)"
      using dn fullDelta_oneHot [OF kl, of curves H ?s n _ u]
      by (intro arg_cong [where f = sum_list] map_cong) (simp_all add: list_all_iff)
    moreover have "(\<Sum>p\<leftarrow>admissiblePairs T. approxDelta H ?s (oneHot n k u) p l) =
        (\<Sum>p\<leftarrow>admissiblePairs T. (- (2 * farEntry H ?s p l k)) *\<^sub>R u)"
      using df approxDelta_oneHot [OF kl, of H ?s n _ u]
      by (intro arg_cong [where f = sum_list] map_cong) (simp_all add: list_all_iff)
    ultimately show ?thesis
      using kl(2) by (simp add: out z sum_list_neg2_scaleR)
  qed
  have "(\<Sum>p\<leftarrow>inadmissiblePairs T. nearEntry curves H ?s p j i) =
      (\<Sum>p\<leftarrow>inadmissiblePairs T. nearEntry curves H ?s p i j)"
    using sum_list_mirror [OF mi, of "\<lambda>p. nearEntry curves H ?s p i j"]
    by (simp add: nearEntry_mirror)
  moreover have "(\<Sum>p\<leftarrow>admissiblePairs T. farEntry H ?s p j i) =
      (\<Sum>p\<leftarrow>admissiblePairs T. farEntry H ?s p i j)"
    using sum_list_mirror [OF ma, of "\<lambda>p. farEntry H ?s p i j"]
    by (simp add: farEntry_mirror)
  ultimately show ?thesis
    using res [OF near_i far_i ij(1,3)] res [OF near_j far_j ij(1) [symmetric] ij(2)]
    by simp
qed

section \<open>Linearity of the two direct products\<close>

lemma length_axpy [simp]: "length (axpy c v1 v2) = min (length v1) (length v2)"
  by (simp add: axpy_def)

lemma nth_axpy: "k < length v1 \<Longrightarrow> k < length v2 \<Longrightarrow> axpy c v1 v2 ! k = v1 ! k + c *\<^sub>R (v2 ! k)"
  by (simp add: axpy_def)

lemma sum_list_scaleR_right:
  fixes f :: "'a \<Rightarrow> Vector3"
  shows "(\<Sum>x\<leftarrow>xs. c *\<^sub>R f x) = c *\<^sub>R (\<Sum>x\<leftarrow>xs. f x)"
  by (induction xs) (simp_all add: scaleR_right_distrib)

lemma sum_list_axpy:
  fixes f g :: "'a \<Rightarrow> Vector3"
  shows "(\<Sum>x\<leftarrow>xs. f x + c *\<^sub>R g x) = (\<Sum>x\<leftarrow>xs. f x) + c *\<^sub>R (\<Sum>x\<leftarrow>xs. g x)"
  by (simp add: sum_list_addf sum_list_scaleR_right)

lemma sum_list_axpy_nth:
  assumes "\<forall>e\<in>set es. e < length v1 \<and> e < length v2"
  shows "(\<Sum>e\<leftarrow>es. f e *\<^sub>R (axpy c v1 v2 ! e)) =
         (\<Sum>e\<leftarrow>es. f e *\<^sub>R (v1 ! e)) + c *\<^sub>R (\<Sum>e\<leftarrow>es. f e *\<^sub>R (v2 ! e))"
  using assms by (induction es) (simp_all add: nth_axpy algebra_simps)

lemma nearField_axpy:
  assumes "i < length v1" "i < length v2" "\<forall>j\<in>set js. j < length v1 \<and> j < length v2"
  shows "nearField curves s (axpy c v1 v2) js i =
         nearField curves s v1 js i + c *\<^sub>R nearField curves s v2 js i"
  unfolding nearField_def sum_list_axpy_nth [OF assms(3)] nth_axpy [OF assms(1,2)]
  by (simp add: algebra_simps)

lemma fullDelta_axpy:
  assumes "length v1 = n" "length v2 = n" "fullDefined curves H s n m p"
  shows "fullDelta curves H s (axpy c v1 v2) p k =
         fullDelta curves H s v1 p k + c *\<^sub>R fullDelta curves H s v2 p k"
proof (cases "k \<in> set (clusterIndices (H (cluster1 p)))")
  case False
  then have "count_list (clusterIndices (H (cluster1 p))) k = 0" by (simp add: count_list_0_iff)
  then show ?thesis by (simp add: fullDelta_def)
next
  case True
  with assms have "k < length v1" "k < length v2"
    "\<forall>j\<in>set (clusterIndices (H (cluster2 p))). j < length v1 \<and> j < length v2"
    by (auto simp: fullDefined_def rowDefined_def list_all_iff)
  from nearField_axpy [OF this, of curves s c] show ?thesis
    by (simp add: fullDelta_def algebra_simps)
qed

lemma weightedSum_axpy:
  assumes "length v1 = n" "length v2 = n" "sideDefined H n c"
  shows "weightedSum H c (axpy cc v1 v2) = weightedSum H c v1 + cc *\<^sub>R weightedSum H c v2"
proof -
  have "(clusterMassVector (H c) ! t) *\<^sub>R (axpy cc v1 v2 ! (clusterIndices (H c) ! t)) =
        (clusterMassVector (H c) ! t) *\<^sub>R (v1 ! (clusterIndices (H c) ! t)) +
        cc *\<^sub>R ((clusterMassVector (H c) ! t) *\<^sub>R (v2 ! (clusterIndices (H c) ! t)))"
    if "t \<in> set [0..<length (clusterMassVector (H c))]" for t
    using assms that by (simp add: sideDefined_def list_all_iff nth_axpy algebra_simps)
  then have "weightedSum H c (axpy cc v1 v2) =
      (\<Sum>t\<leftarrow>[0..<length (clusterMassVector (H c))].
        (clusterMassVector (H c) ! t) *\<^sub>R (v1 ! (clusterIndices (H c) ! t)) +
        cc *\<^sub>R ((clusterMassVector (H c) ! t) *\<^sub>R (v2 ! (clusterIndices (H c) ! t))))"
    unfolding weightedSum_def by (intro arg_cong [where f = sum_list] map_cong) simp_all
  then show ?thesis by (simp only: sum_list_axpy weightedSum_def)
qed

lemma approxDelta_axpy:
  assumes "length v1 = n" "length v2 = n" "approxDefined H s n m p" "k < n"
  shows "approxDelta H s (axpy c v1 v2) p k =
         approxDelta H s v1 p k + c *\<^sub>R approxDelta H s v2 p k"
proof -
  from assms(3) have "sideDefined H n (cluster2 p)" by (simp add: approxDefined_def)
  from weightedSum_axpy [OF assms(1,2) this] assms(1,2,4) show ?thesis
    by (simp add: approxDelta_def nth_axpy algebra_simps)
qed

lemma MultiplyInadmissible_linear:
  assumes "length v1 = n" "length v2 = n"
    and "MultiplyInadmissible curves H T v1 (replicate n 0) = Some r1"
    and "MultiplyInadmissible curves H T v2 (replicate n 0) = Some r2"
  shows "MultiplyInadmissible curves H T (axpy c v1 v2) (replicate n 0) = Some (axpy c r1 r2)"
proof -
  let ?s = "beta T - alpha T" and ?ps = "inadmissiblePairs T"
  from assms(1,3) have d: "list_all (fullDefined curves H ?s n n) ?ps"
    and r1: "r1 = addRows (replicate n 0) (\<lambda>k. \<Sum>p\<leftarrow>?ps. fullDelta curves H ?s v1 p k)"
    by (simp_all add: MultiplyInadmissible_eq split: if_splits)
  from assms(2,4) have r2: "r2 = addRows (replicate n 0) (\<lambda>k. \<Sum>p\<leftarrow>?ps. fullDelta curves H ?s v2 p k)"
    by (simp_all add: MultiplyInadmissible_eq split: if_splits)
  have "(\<Sum>p\<leftarrow>?ps. fullDelta curves H ?s (axpy c v1 v2) p k) =
      (\<Sum>p\<leftarrow>?ps. fullDelta curves H ?s v1 p k + c *\<^sub>R fullDelta curves H ?s v2 p k)" for k
    using d fullDelta_axpy [OF assms(1,2), of curves H ?s n]
    by (intro arg_cong [where f = sum_list] map_cong) (simp_all add: list_all_iff)
  then have "addRows (replicate n 0) (\<lambda>k. \<Sum>p\<leftarrow>?ps. fullDelta curves H ?s (axpy c v1 v2) p k) =
      axpy c r1 r2"
    unfolding r1 r2
    by (intro nth_equalityI) (simp_all add: nth_axpy sum_list_axpy)
  then show ?thesis using d assms(1,2) by (simp add: MultiplyInadmissible_eq)
qed

lemma MultiplyAdmissible_linear:
  assumes "length v1 = n" "length v2 = n"
    and "MultiplyAdmissible H T v1 (replicate n 0) = Some r1"
    and "MultiplyAdmissible H T v2 (replicate n 0) = Some r2"
  shows "MultiplyAdmissible H T (axpy c v1 v2) (replicate n 0) = Some (axpy c r1 r2)"
proof -
  let ?s = "beta T - alpha T" and ?ps = "admissiblePairs T"
  from assms(1,3) have d: "list_all (approxDefined H ?s n n) ?ps"
    and r1: "r1 = addRows (replicate n 0) (\<lambda>k. \<Sum>p\<leftarrow>?ps. approxDelta H ?s v1 p k)"
    by (simp_all add: MultiplyAdmissible_eq split: if_splits)
  from assms(2,4) have r2: "r2 = addRows (replicate n 0) (\<lambda>k. \<Sum>p\<leftarrow>?ps. approxDelta H ?s v2 p k)"
    by (simp_all add: MultiplyAdmissible_eq split: if_splits)
  have "(\<Sum>p\<leftarrow>?ps. approxDelta H ?s (axpy c v1 v2) p k) =
      (\<Sum>p\<leftarrow>?ps. approxDelta H ?s v1 p k + c *\<^sub>R approxDelta H ?s v2 p k)" if "k < n" for k
    using d approxDelta_axpy [OF assms(1,2) _ that, of H ?s n]
    by (intro arg_cong [where f = sum_list] map_cong) (simp_all add: list_all_iff)
  then have "addRows (replicate n 0) (\<lambda>k. \<Sum>p\<leftarrow>?ps. approxDelta H ?s (axpy c v1 v2) p k) =
      axpy c r1 r2"
    unfolding r1 r2
    by (intro nth_equalityI) (simp_all add: nth_axpy sum_list_axpy)
  then show ?thesis using d assms(1,2) by (simp add: MultiplyAdmissible_eq)
qed

section \<open>The role of the output buffer\<close>

lemma overwritten:
  assumes "length b = n" "length c0 = n" "length c1 = n" "length c2 = n"
  shows "map2 (\<lambda>row c. Vector3 (vec_x row) (vec_y row) c)
           (map2 (\<lambda>row c. Vector3 (vec_x row) c (vec_z row))
              (map2 (\<lambda>row c. Vector3 c (vec_y row) (vec_z row)) b c0) c1) c2 =
         map (\<lambda>k. Vector3 (c0 ! k) (c1 ! k) (c2 ! k)) [0..<n]"
  using assms by (intro nth_equalityI) simp_all

lemma MultiplyAdmissibleFast_alt:
  "MultiplyAdmissibleFast curves H T v_hat (b, S) =
     do {
       (h_f, S1) \<leftarrow> MultiplyAf H T (replicate (NumVertices curves) 1) S;
       (c0, S2) \<leftarrow> MultiplyAf H T (map vec_x v_hat) S1;
       (c1, S3) \<leftarrow> MultiplyAf H T (map vec_y v_hat) S2;
       (c2, S4) \<leftarrow> MultiplyAf H T (map vec_z v_hat) S3;
       (if length c0 = length b \<and> length c1 = length b \<and> length c2 = length b \<and>
           length h_f = length v_hat \<and> length v_hat = length b
        then Some (map (\<lambda>k. 2 *\<^sub>R ((h_f ! k) *\<^sub>R (v_hat ! k) - Vector3 (c0 ! k) (c1 ! k) (c2 ! k)))
                     [0..<length b], S4)
        else None)
     }"
  unfolding MultiplyAdmissibleFast_def Let_def setCol_def fst_conv snd_conv
  by (auto split: Option.bind_split prod.splits simp: overwritten [OF refl])

lemma addRows_map2: "addRows b d = map2 (+) b (addRows (replicate (length b) 0) d)"
  by (intro nth_equalityI) simp_all

text \<open>
  Claim C10. \<open>MultiplyAdmissibleFast\<close> overwrites its output buffer: its result (also
  whether it has one) is the same as on a zero buffer of the same size. The other two
  modes accumulate: the result of \<open>MultiplyAdmissible\<close> and of
  \<open>MultiplyInadmissible\<close> is the buffer plus the result on a zero buffer.
\<close>

theorem output_buffer_roles:
  "MultiplyAdmissibleFast curves H T v (b, S) =
     MultiplyAdmissibleFast curves H T v (replicate (length b) 0, S) \<and>
   MultiplyAdmissible H T v b =
     map_option (\<lambda>d. map2 (+) b d) (MultiplyAdmissible H T v (replicate (length b) 0)) \<and>
   MultiplyInadmissible curves H T v b =
     map_option (\<lambda>d. map2 (+) b d) (MultiplyInadmissible curves H T v (replicate (length b) 0))"
proof (intro conjI)
  show "MultiplyAdmissibleFast curves H T v (b, S) =
     MultiplyAdmissibleFast curves H T v (replicate (length b) 0, S)"
    by (simp add: MultiplyAdmissibleFast_alt cong del: if_weak_cong)
  show "MultiplyAdmissible H T v b =
     map_option (\<lambda>d. map2 (+) b d) (MultiplyAdmissible H T v (replicate (length b) 0))"
    by (simp add: MultiplyAdmissible_eq addRows_map2 [of b])
  show "MultiplyInadmissible curves H T v b =
     map_option (\<lambda>d. map2 (+) b d) (MultiplyInadmissible curves H T v (replicate (length b) 0))"
    by (simp add: MultiplyInadmissible_eq addRows_map2 [of b])
qed

section \<open>The two realizations of the far field agree\<close>

lemma MultiplyAf_undefined:
  assumes c: "hierarchyContract H T d" and len: "length v = length (fullMasses (H (tree_root T)))"
    and far: "\<not> list_all (farDefined H (beta T - alpha T)) (admissiblePairs T)"
  shows "MultiplyAf H T v S = None"
proof -
  from c have ok: "subtreeOK H (fullMasses (H (tree_root T))) d (tree_root T)"
    and dn: "distinct (nodesBelow H d (tree_root T))"
    by (simp_all add: hierarchyContract_def)
  show ?thesis
    unfolding MultiplyAf_def Let_def SetBIs_def
    using far by (simp add: SetVIs_result [OF ok dn len] SetBIs_loop)
qed

lemma contract_approxDefined:
  assumes c: "hierarchyContract H T d"
    and far: "list_all (farDefined H (beta T - alpha T)) (admissiblePairs T)"
  shows "list_all (approxDefined H (beta T - alpha T) (length (fullMasses (H (tree_root T))))
           (length (fullMasses (H (tree_root T))))) (admissiblePairs T)"
proof -
  let ?M = "fullMasses (H (tree_root T))"
  from c have ok: "subtreeOK H ?M d (tree_root T)" and di: "distinct (clusterIndices (H (tree_root T)))"
    and inside: "pairsInside H d (tree_root T) (admissiblePairs T)"
    by (simp_all add: hierarchyContract_def)
  have side: "sideDefined H (length ?M) q" if "q \<in> set (nodesBelow H d (tree_root T))" for q
    using subtreeOK_node [OF ok di that] by (simp add: sideDefined_def list_all_iff)
  show ?thesis
    using far inside by (auto simp: list_all_iff approxDefined_def pairsInside_def side)
qed

lemma fast_is_direct:
  assumes c: "hierarchyContract H T d"
    and nv: "NumVertices curves = length (fullMasses (H (tree_root T)))"
    and lv: "length v = NumVertices curves" and lb: "length b = length v"
    and fast: "MultiplyAdmissibleFast curves H T v (b, S) = Some (r, S')"
  shows "MultiplyAdmissible H T v (replicate (length v) 0) = Some r"
proof -
  have far: "list_all (farDefined H (beta T - alpha T)) (admissiblePairs T)"
  proof (rule ccontr)
    assume "\<not> ?thesis"
    from MultiplyAf_undefined [OF c _ this, of "replicate (NumVertices curves) 1" S] nv
    have "MultiplyAdmissibleFast curves H T v (b, S) = None"
      by (simp add: MultiplyAdmissibleFast_alt)
    with fast show False by simp
  qed
  from contract_approxDefined [OF c far] nv lv
  obtain r' where direct: "MultiplyAdmissible H T v (replicate (length v) 0) = Some r'"
    by (simp add: MultiplyAdmissible_eq)
  from fast_refines_direct [OF c nv lv lb direct, of S] fast show ?thesis
    using direct by auto
qed

text \<open>
  Claim C3. Under the contract of hierarchy and tree, with input and output of as many
  rows as the curve has vertices: the propagation \<open>MultiplyAdmissibleFast\<close> returns
  \<open>r\<close> exactly when the direct monopole product \<open>MultiplyAdmissible\<close>, started on a
  zero output, returns \<open>r\<close>, whatever the output buffer and the scratch fields held
  before. The two are defined on the same inputs and agree there.
\<close>

theorem MultiplyAdmissibleFast_refines:
  assumes "hierarchyContract H T d"
    and "NumVertices curves = length (fullMasses (H (tree_root T)))"
    and "length v = NumVertices curves" and "length b = length v"
  shows "(\<exists>S'. MultiplyAdmissibleFast curves H T v (b, S) = Some (r, S')) \<longleftrightarrow>
         MultiplyAdmissible H T v (replicate (length v) 0) = Some r"
proof
  assume "\<exists>S'. MultiplyAdmissibleFast curves H T v (b, S) = Some (r, S')"
  then obtain S' where "MultiplyAdmissibleFast curves H T v (b, S) = Some (r, S')" ..
  with assms show "MultiplyAdmissible H T v (replicate (length v) 0) = Some r"
    by (rule fast_is_direct)
next
  assume "MultiplyAdmissible H T v (replicate (length v) 0) = Some r"
  with assms show "\<exists>S'. MultiplyAdmissibleFast curves H T v (b, S) = Some (r, S')"
    by (rule fast_refines_direct)
qed

section \<open>Linearity of the propagation\<close>

lemma length_axpy1 [simp]: "length (axpy1 c w1 w2) = min (length w1) (length w2)"
  by (simp add: axpy1_def)

lemma nth_axpy1: "k < length w1 \<Longrightarrow> k < length w2 \<Longrightarrow> axpy1 c w1 w2 ! k = w1 ! k + c * w2 ! k"
  by (simp add: axpy1_def)

lemma SetVIs_children_linked:
  assumes IH: "\<And>child S y Sb Sb' Sc. f child S = Some y \<Longrightarrow> g child Sb = Some Sb' \<Longrightarrow>
        linked c S Sb Sc \<Longrightarrow> \<exists>Sc'. h child Sc = Some Sc' \<and> linked c y Sb' Sc'"
    and a: "foldM (\<lambda>child S1. do {
                 S2 \<leftarrow> f child S1;
                 Some (S2(p := (S2 p)\<lparr>V_I := V_I (S2 p) + V_I (S2 child)\<rparr>))
               }) cs Sa = Some Sa'"
    and b: "foldM (\<lambda>child S1. do {
                 S2 \<leftarrow> g child S1;
                 Some (S2(p := (S2 p)\<lparr>V_I := V_I (S2 p) + V_I (S2 child)\<rparr>))
               }) cs Sb = Some Sb'"
    and l: "linked c Sa Sb Sc"
  shows "\<exists>Sc'. foldM (\<lambda>child S1. do {
                 S2 \<leftarrow> h child S1;
                 Some (S2(p := (S2 p)\<lparr>V_I := V_I (S2 p) + V_I (S2 child)\<rparr>))
               }) cs Sc = Some Sc' \<and> linked c Sa' Sb' Sc'"
  using a b l
proof (induction cs arbitrary: Sa Sb Sc)
  case Nil
  then show ?case by simp
next
  case (Cons x cs)
  from Cons.prems(1) obtain A1 where A1: "f x Sa = Some A1"
    and A: "foldM (\<lambda>child S1. do {
                 S2 \<leftarrow> f child S1;
                 Some (S2(p := (S2 p)\<lparr>V_I := V_I (S2 p) + V_I (S2 child)\<rparr>))
               }) cs (A1(p := (A1 p)\<lparr>V_I := V_I (A1 p) + V_I (A1 x)\<rparr>)) = Some Sa'"
    by (cases "f x Sa") (simp_all only: foldM.simps Option.bind.simps option.distinct)
  from Cons.prems(2) obtain B1 where B1: "g x Sb = Some B1"
    and B: "foldM (\<lambda>child S1. do {
                 S2 \<leftarrow> g child S1;
                 Some (S2(p := (S2 p)\<lparr>V_I := V_I (S2 p) + V_I (S2 child)\<rparr>))
               }) cs (B1(p := (B1 p)\<lparr>V_I := V_I (B1 p) + V_I (B1 x)\<rparr>)) = Some Sb'"
    by (cases "g x Sb") (simp_all only: foldM.simps Option.bind.simps option.distinct)
  from IH [OF A1 B1 Cons.prems(3)] obtain C1 where C1: "h x Sc = Some C1" "linked c A1 B1 C1"
    by blast
  have "linked c (A1(p := (A1 p)\<lparr>V_I := V_I (A1 p) + V_I (A1 x)\<rparr>))
      (B1(p := (B1 p)\<lparr>V_I := V_I (B1 p) + V_I (B1 x)\<rparr>))
      (C1(p := (C1 p)\<lparr>V_I := V_I (C1 p) + V_I (C1 x)\<rparr>))"
    using C1(2) by (simp add: linked_def algebra_simps)
  from Cons.IH [OF A B this] C1(1) show ?case by simp
qed

lemma SetVIs_linked:
  "SetVIs H w1 p Sa = Some Sa' \<Longrightarrow> SetVIs H w2 p Sb = Some Sb' \<Longrightarrow> length w2 = length w1 \<Longrightarrow>
     linked c Sa Sb Sc \<Longrightarrow>
     \<exists>Sc'. SetVIs H (axpy1 c w1 w2) p Sc = Some Sc' \<and> linked c Sa' Sb' Sc'"
proof (induction H w1 p Sa Sa' arbitrary: Sb Sb' Sc
    rule: SetVIs.raw_induct [rotated, consumes 1, case_names step])
  case (step f H w1 p Sa Sa')
  show ?case
  proof (cases "IsLeaf (H p)")
    case True
    from step.hyps True obtain x1 where x1: "coeff w1 (VertexIndex (H p)) = Some x1"
      and Sa': "Sa' = Sa(p := (Sa p)\<lparr>V_I := totalMass (H p) * x1\<rparr>)"
      by (auto simp: bind_eq_Some_conv)
    from step.prems(1) True obtain x2 where x2: "coeff w2 (VertexIndex (H p)) = Some x2"
      and Sb': "Sb' = Sb(p := (Sb p)\<lparr>V_I := totalMass (H p) * x2\<rparr>)"
      by (subst (asm) SetVIs.simps) (auto simp: bind_eq_Some_conv)
    from x1 x2 step.prems(2) have x: "coeff (axpy1 c w1 w2) (VertexIndex (H p)) = Some (x1 + c * x2)"
      by (auto simp: coeff_def nth_axpy1 split: if_splits)
    have "SetVIs H (axpy1 c w1 w2) p Sc =
        Some (Sc(p := (Sc p)\<lparr>V_I := totalMass (H p) * (x1 + c * x2)\<rparr>))"
      using True by (subst SetVIs.simps) (simp add: x)
    moreover have "linked c Sa' Sb' (Sc(p := (Sc p)\<lparr>V_I := totalMass (H p) * (x1 + c * x2)\<rparr>))"
      using step.prems(3) by (simp add: linked_def Sa' Sb' algebra_simps)
    ultimately show ?thesis by blast
  next
    case False
    have a: "foldM (\<lambda>child S1. do {
                 S2 \<leftarrow> f H w1 child S1;
                 Some (S2(p := (S2 p)\<lparr>V_I := V_I (S2 p) + V_I (S2 child)\<rparr>))
               }) (children (H p)) (Sa(p := (Sa p)\<lparr>V_I := 0\<rparr>)) = Some Sa'"
      using step.hyps False by simp
    have b: "foldM (\<lambda>child S1. do {
                 S2 \<leftarrow> SetVIs H w2 child S1;
                 Some (S2(p := (S2 p)\<lparr>V_I := V_I (S2 p) + V_I (S2 child)\<rparr>))
               }) (children (H p)) (Sb(p := (Sb p)\<lparr>V_I := 0\<rparr>)) = Some Sb'"
      using step.prems(1) False by (subst (asm) SetVIs.simps) simp
    have l: "linked c (Sa(p := (Sa p)\<lparr>V_I := 0\<rparr>)) (Sb(p := (Sb p)\<lparr>V_I := 0\<rparr>))
        (Sc(p := (Sc p)\<lparr>V_I := 0\<rparr>))"
      using step.prems(3) by (simp add: linked_def)
    have "\<exists>Sc'. foldM (\<lambda>child S1. do {
                 S2 \<leftarrow> SetVIs H (axpy1 c w1 w2) child S1;
                 Some (S2(p := (S2 p)\<lparr>V_I := V_I (S2 p) + V_I (S2 child)\<rparr>))
               }) (children (H p)) (Sc(p := (Sc p)\<lparr>V_I := 0\<rparr>)) = Some Sc' \<and>
            linked c Sa' Sb' Sc'"
      by (rule SetVIs_children_linked [where f = "f H w1" and g = "SetVIs H w2", OF _ a b l])
         (rule step.IH [OF _ _ step.prems(2)])
    then show ?thesis using False by (subst SetVIs.simps) simp
  qed
qed

lemma axpy1_update:
  "length ba = length bb \<Longrightarrow>
     axpy1 c (ba[i := x]) (bb[i := y]) = (axpy1 c ba bb)[i := x + c * y]"
proof (rule nth_equalityI)
  show "length (axpy1 c (ba[i := x]) (bb[i := y])) = length ((axpy1 c ba bb)[i := x + c * y])"
    by simp
next
  fix k
  assume "k < length (axpy1 c (ba[i := x]) (bb[i := y]))"
  moreover assume "length ba = length bb"
  ultimately have k: "k < length ba" "k < length bb" by simp_all
  show "axpy1 c (ba[i := x]) (bb[i := y]) ! k = (axpy1 c ba bb)[i := x + c * y] ! k"
    using k by (cases "k = i") (simp_all add: nth_axpy1)
qed

lemma PropagateBIs_children_linked:
  assumes IH: "\<And>child xa st y xb stb stb' stc. f child xa st = Some y \<Longrightarrow>
        g child xb stb = Some stb' \<Longrightarrow> linkedSt c st stb stc \<Longrightarrow>
        \<exists>stc'. h child (xa + c * xb) stc = Some stc' \<and> linkedSt c y stb' stc'"
    and a: "foldM (\<lambda>child st1. f child (B_I (snd st1 p)) st1) cs sta = Some sta'"
    and b: "foldM (\<lambda>child st1. g child (B_I (snd st1 p)) st1) cs stb = Some stb'"
    and l: "linkedSt c sta stb stc"
  shows "\<exists>stc'. foldM (\<lambda>child st1. h child (B_I (snd st1 p)) st1) cs stc = Some stc' \<and>
           linkedSt c sta' stb' stc'"
  using a b l
proof (induction cs arbitrary: sta stb stc)
  case Nil
  then show ?case by simp
next
  case (Cons x cs)
  from Cons.prems(1) obtain A1 where A1: "f x (B_I (snd sta p)) sta = Some A1"
    and A: "foldM (\<lambda>child st1. f child (B_I (snd st1 p)) st1) cs A1 = Some sta'"
    by (cases "f x (B_I (snd sta p)) sta")
       (simp_all only: foldM.simps Option.bind.simps option.distinct)
  from Cons.prems(2) obtain B1 where B1: "g x (B_I (snd stb p)) stb = Some B1"
    and B: "foldM (\<lambda>child st1. g child (B_I (snd st1 p)) st1) cs B1 = Some stb'"
    by (cases "g x (B_I (snd stb p)) stb")
       (simp_all only: foldM.simps Option.bind.simps option.distinct)
  from IH [OF A1 B1 Cons.prems(3)] obtain C1
    where C1: "h x (B_I (snd sta p) + c * B_I (snd stb p)) stc = Some C1" "linkedSt c A1 B1 C1"
    by blast
  have x: "B_I (snd stc p) = B_I (snd sta p) + c * B_I (snd stb p)"
    using Cons.prems(3) by (simp add: linkedSt_def linked_def)
  from Cons.IH [OF A B C1(2)] C1(1) show ?case by (simp add: x)
qed

lemma PropagateBIs_linked:
  "PropagateBIs H p xa sta = Some sta' \<Longrightarrow> PropagateBIs H p xb stb = Some stb' \<Longrightarrow>
     linkedSt c sta stb stc \<Longrightarrow>
     \<exists>stc'. PropagateBIs H p (xa + c * xb) stc = Some stc' \<and> linkedSt c sta' stb' stc'"
proof (induction H p xa sta sta' arbitrary: xb stb stb' stc
    rule: PropagateBIs.raw_induct [rotated, consumes 1, case_names step])
  case (step f H p xa sta sta')
  obtain ba Sa where sta: "sta = (ba, Sa)" by (cases sta)
  obtain bb Sb where stb: "stb = (bb, Sb)" by (cases stb)
  obtain bc Sc where stc: "stc = (bc, Sc)" by (cases stc)
  let ?Sa = "Sa(p := (Sa p)\<lparr>B_I := xa + aIJ_VJ (Sa p)\<rparr>)"
  let ?Sb = "Sb(p := (Sb p)\<lparr>B_I := xb + aIJ_VJ (Sb p)\<rparr>)"
  let ?Sc = "Sc(p := (Sc p)\<lparr>B_I := xa + c * xb + aIJ_VJ (Sc p)\<rparr>)"
  from step.prems(2) have len: "length ba = length bb" and bc: "bc = axpy1 c ba bb"
    and l0: "linked c Sa Sb Sc"
    by (simp_all add: linkedSt_def sta stb stc)
  have l: "linked c ?Sa ?Sb ?Sc"
    using l0 by (simp add: linked_def algebra_simps)
  show ?case
  proof (cases "IsLeaf (H p)")
    case True
    from step.hyps True have va: "VertexIndex (H p) < length ba"
      and sta': "sta' = (ba[VertexIndex (H p) := B_I (?Sa p)], ?Sa)"
      by (auto simp: sta Let_def split: if_splits)
    from step.prems(1) True have vb: "VertexIndex (H p) < length bb"
      and stb': "stb' = (bb[VertexIndex (H p) := B_I (?Sb p)], ?Sb)"
      by (subst (asm) PropagateBIs.simps; auto simp: stb Let_def split: if_splits)+
    have "PropagateBIs H p (xa + c * xb) stc = Some (bc[VertexIndex (H p) := B_I (?Sc p)], ?Sc)"
      using True va vb by (subst PropagateBIs.simps) (simp add: stc bc Let_def)
    moreover have "linkedSt c sta' stb' (bc[VertexIndex (H p) := B_I (?Sc p)], ?Sc)"
    proof -
      have "B_I (?Sc p) = B_I (?Sa p) + c * B_I (?Sb p)"
        using l0 by (simp add: linked_def algebra_simps)
      then show ?thesis
        unfolding linkedSt_def sta' stb' fst_conv snd_conv bc
        using l len by (simp only: axpy1_update length_list_update simp_thms)
    qed
    ultimately show ?thesis by blast
  next
    case False
    have a: "foldM (\<lambda>child st1. f H child (B_I (snd st1 p)) st1) (children (H p)) (ba, ?Sa) =
        Some sta'"
      using step.hyps False by (simp add: sta Let_def)
    have b: "foldM (\<lambda>child st1. PropagateBIs H child (B_I (snd st1 p)) st1) (children (H p))
        (bb, ?Sb) = Some stb'"
      using step.prems(1) False by (subst (asm) PropagateBIs.simps) (simp add: stb Let_def)
    have l': "linkedSt c (ba, ?Sa) (bb, ?Sb) (bc, ?Sc)"
      using l len bc by (simp add: linkedSt_def)
    have "\<exists>stc'. foldM (\<lambda>child st1. PropagateBIs H child (B_I (snd st1 p)) st1)
             (children (H p)) (bc, ?Sc) = Some stc' \<and> linkedSt c sta' stb' stc'"
      by (rule PropagateBIs_children_linked [where f = "f H" and g = "PropagateBIs H",
            OF _ a b l'])
         (rule step.IH)
    then show ?thesis using False by (subst PropagateBIs.simps) (simp add: stc Let_def)
  qed
qed

lemma pending_axpy:
  "pending H s (\<lambda>q. Va q + c * Vb q) ps q = pending H s Va ps q + c * pending H s Vb ps q"
  unfolding pending_def by (induction ps) (simp_all add: algebra_simps)

lemma SetBIs_linked:
  assumes a: "SetBIs H T p sta = Some sta'" and b: "SetBIs H T p stb = Some stb'"
    and l: "linkedSt c sta stb stc"
  shows "\<exists>stc'. SetBIs H T p stc = Some stc' \<and> linkedSt c sta' stb' stc'"
proof -
  let ?s = "beta T - alpha T"
  let ?far = "\<lambda>S q. (S q)\<lparr>aIJ_VJ := aIJ_VJ (S q) +
      pending H ?s (\<lambda>c. V_I (S c)) (admissiblePairs T) q\<rparr>"
  from a have def: "list_all (farDefined H ?s) (admissiblePairs T)"
    and a': "PropagateBIs H p 0 (fst sta, ?far (snd sta)) = Some sta'"
    by (auto simp: SetBIs_def SetBIs_loop split: if_splits)
  from b have b': "PropagateBIs H p 0 (fst stb, ?far (snd stb)) = Some stb'"
    by (auto simp: SetBIs_def SetBIs_loop split: if_splits)
  have V: "(\<lambda>q. V_I (snd stc q)) = (\<lambda>q. V_I (snd sta q) + c * V_I (snd stb q))"
    using l by (simp add: linkedSt_def linked_def)
  have "linkedSt c (fst sta, ?far (snd sta)) (fst stb, ?far (snd stb)) (fst stc, ?far (snd stc))"
    using l unfolding linkedSt_def linked_def fst_conv snd_conv V pending_axpy
    by (simp add: algebra_simps)
  from PropagateBIs_linked [OF a' b' this]
  obtain stc' where "PropagateBIs H p 0 (fst stc, ?far (snd stc)) = Some stc'"
    "linkedSt c sta' stb' stc'"
    by auto
  then show ?thesis using def by (simp add: SetBIs_def SetBIs_loop)
qed

lemma map2_times_axpy1:
  "length ra = length rb \<Longrightarrow>
     map2 (*) fm (axpy1 c ra rb) = axpy1 c (map2 (*) fm ra) (map2 (*) fm rb)"
  by (rule nth_equalityI) (simp_all add: nth_axpy1 algebra_simps)

lemma MultiplyAf_reset: "MultiplyAf H T w S = MultiplyAf H T w S'"
  by (simp add: MultiplyAf_def recursivelyZeroMVFields_def)

lemma MultiplyAf_linked:
  assumes a: "MultiplyAf H T w1 Sa = Some (r1, Sa')"
    and b: "MultiplyAf H T w2 Sb = Some (r2, Sb')"
    and len: "length w2 = length w1"
  shows "\<exists>Sc'. MultiplyAf H T (axpy1 c w1 w2) Sc = Some (axpy1 c r1 r2, Sc')"
proof -
  let ?Z = "\<lambda>node :: ptr. \<lparr>V_I = 0, B_I = 0, aIJ_VJ = 0\<rparr>"
  let ?r = "tree_root T"
  let ?n = "length w1"
  from a obtain A2 ra where A2: "SetVIs H w1 ?r ?Z = Some A2"
    and A3: "SetBIs H T ?r (replicate ?n 0, A2) = Some (ra, Sa')"
    and la: "length (fullMasses (H ?r)) = length ra"
    and r1: "r1 = map2 (*) (fullMasses (H ?r)) ra"
    by (auto simp: MultiplyAf_def recursivelyZeroMVFields_def asDiagonal_times_def
        bind_eq_Some_conv split: if_splits)
  from b len obtain B2 rb where B2: "SetVIs H w2 ?r ?Z = Some B2"
    and B3: "SetBIs H T ?r (replicate ?n 0, B2) = Some (rb, Sb')"
    and lb: "length (fullMasses (H ?r)) = length rb"
    and r2: "r2 = map2 (*) (fullMasses (H ?r)) rb"
    by (auto simp: MultiplyAf_def recursivelyZeroMVFields_def asDiagonal_times_def
        bind_eq_Some_conv split: if_splits)
  have "linked c ?Z ?Z ?Z" by (simp add: linked_def)
  from SetVIs_linked [OF A2 B2 len this]
  obtain C2 where C2: "SetVIs H (axpy1 c w1 w2) ?r ?Z = Some C2" "linked c A2 B2 C2"
    by blast
  have z: "axpy1 c (replicate ?n 0) (replicate ?n 0) = replicate ?n 0"
    by (rule nth_equalityI) (simp_all add: nth_axpy1)
  have "linkedSt c (replicate ?n 0, A2) (replicate ?n 0, B2) (replicate ?n 0, C2)"
    using C2(2) by (simp add: linkedSt_def z)
  from SetBIs_linked [OF A3 B3 this]
  obtain stc' where C3: "SetBIs H T ?r (replicate ?n 0, C2) = Some stc'"
    "linkedSt c (ra, Sa') (rb, Sb') stc'"
    by blast
  obtain rc Sc' where stc': "stc' = (rc, Sc')" by (cases stc')
  from C3(2) have rc: "rc = axpy1 c ra rb" and lab: "length ra = length rb"
    by (simp_all add: linkedSt_def stc')
  have "MultiplyAf H T (axpy1 c w1 w2) Sc = Some (map2 (*) (fullMasses (H ?r)) rc, Sc')"
    using C2(1) C3(1) la lab len
    by (simp add: MultiplyAf_def recursivelyZeroMVFields_def asDiagonal_times_def stc' rc)
  then show ?thesis
    by (auto simp: rc r1 r2 map2_times_axpy1 [OF lab])
qed

lemma MultiplyAdmissibleFast_SomeD:
  assumes "MultiplyAdmissibleFast curves H T v (b, S) = Some (f, S')"
  obtains h Sh c0 S0 c1 S1 c2 where
    "MultiplyAf H T (replicate (NumVertices curves) 1) S = Some (h, Sh)"
    "MultiplyAf H T (map vec_x v) Sh = Some (c0, S0)"
    "MultiplyAf H T (map vec_y v) S0 = Some (c1, S1)"
    "MultiplyAf H T (map vec_z v) S1 = Some (c2, S')"
    "length c0 = length b" "length c1 = length b" "length c2 = length b"
    "length h = length v" "length v = length b"
    "f = map (\<lambda>k. 2 *\<^sub>R ((h ! k) *\<^sub>R (v ! k) - Vector3 (c0 ! k) (c1 ! k) (c2 ! k))) [0..<length b]"
  using assms unfolding MultiplyAdmissibleFast_alt
  by (auto simp: bind_eq_Some_conv split: if_splits)

lemma map_sel_axpy:
  "map vec_x (axpy c v1 v2) = axpy1 c (map vec_x v1) (map vec_x v2)"
  "map vec_y (axpy c v1 v2) = axpy1 c (map vec_y v1) (map vec_y v2)"
  "map vec_z (axpy c v1 v2) = axpy1 c (map vec_z v1) (map vec_z v2)"
  by (rule nth_equalityI; simp add: nth_axpy nth_axpy1 vec_sel_simps)+

lemma MultiplyAdmissibleFast_linear:
  assumes v1: "length v1 = n" and v2: "length v2 = n"
    and f1: "MultiplyAdmissibleFast curves H T v1 (replicate n 0, Sa) = Some (f1, Sa')"
    and f2: "MultiplyAdmissibleFast curves H T v2 (replicate n 0, Sb) = Some (f2, Sb')"
  shows "\<exists>S'. MultiplyAdmissibleFast curves H T (axpy c v1 v2) (replicate n 0, Sc) =
           Some (axpy c f1 f2, S')"
proof -
  from f1 obtain h Sh a0 A0 a1 A1 a2 where
    h: "MultiplyAf H T (replicate (NumVertices curves) 1) Sa = Some (h, Sh)"
    and a: "MultiplyAf H T (map vec_x v1) Sh = Some (a0, A0)"
      "MultiplyAf H T (map vec_y v1) A0 = Some (a1, A1)"
      "MultiplyAf H T (map vec_z v1) A1 = Some (a2, Sa')"
    and la: "length a0 = n" "length a1 = n" "length a2 = n" "length h = n"
    and f1': "f1 = map (\<lambda>k. 2 *\<^sub>R ((h ! k) *\<^sub>R (v1 ! k) - Vector3 (a0 ! k) (a1 ! k) (a2 ! k))) [0..<n]"
    by (rule MultiplyAdmissibleFast_SomeD) (simp_all add: v1)
  from f2 obtain h' Sh' b0 B0 b1 B1 b2 where
    h': "MultiplyAf H T (replicate (NumVertices curves) 1) Sb = Some (h', Sh')"
    and b: "MultiplyAf H T (map vec_x v2) Sh' = Some (b0, B0)"
      "MultiplyAf H T (map vec_y v2) B0 = Some (b1, B1)"
      "MultiplyAf H T (map vec_z v2) B1 = Some (b2, Sb')"
    and lb: "length b0 = n" "length b1 = n" "length b2 = n"
    and f2': "f2 = map (\<lambda>k. 2 *\<^sub>R ((h' ! k) *\<^sub>R (v2 ! k) - Vector3 (b0 ! k) (b1 ! k) (b2 ! k))) [0..<n]"
    by (rule MultiplyAdmissibleFast_SomeD) (simp_all add: v2)
  have hh: "h' = h" and hc: "MultiplyAf H T (replicate (NumVertices curves) 1) Sc = Some (h, Sh)"
    using h h' MultiplyAf_reset [of H T _ Sa Sb] MultiplyAf_reset [of H T _ Sa Sc] by simp_all
  have len: "length (map vec_x v2) = length (map vec_x v1)"
    "length (map vec_y v2) = length (map vec_y v1)"
    "length (map vec_z v2) = length (map vec_z v1)"
    using v1 v2 by simp_all
  from MultiplyAf_linked [OF a(1) b(1) len(1), of c Sh]
  obtain C0 where c0: "MultiplyAf H T (map vec_x (axpy c v1 v2)) Sh = Some (axpy1 c a0 b0, C0)"
    by (auto simp: map_sel_axpy)
  from MultiplyAf_linked [OF a(2) b(2) len(2), of c C0]
  obtain C1 where c1: "MultiplyAf H T (map vec_y (axpy c v1 v2)) C0 = Some (axpy1 c a1 b1, C1)"
    by (auto simp: map_sel_axpy)
  from MultiplyAf_linked [OF a(3) b(3) len(3), of c C1]
  obtain C2 where c2: "MultiplyAf H T (map vec_z (axpy c v1 v2)) C1 = Some (axpy1 c a2 b2, C2)"
    by (auto simp: map_sel_axpy)
  have rows: "map (\<lambda>k. 2 *\<^sub>R ((h ! k) *\<^sub>R (axpy c v1 v2 ! k) -
        Vector3 (axpy1 c a0 b0 ! k) (axpy1 c a1 b1 ! k) (axpy1 c a2 b2 ! k))) [0..<n] =
      axpy c f1 f2"
  proof (rule nth_equalityI)
    show "length (map (\<lambda>k. 2 *\<^sub>R ((h ! k) *\<^sub>R (axpy c v1 v2 ! k) -
        Vector3 (axpy1 c a0 b0 ! k) (axpy1 c a1 b1 ! k) (axpy1 c a2 b2 ! k))) [0..<n]) =
      length (axpy c f1 f2)"
      by (simp add: f1' f2')
  next
    fix k
    assume "k < length (map (\<lambda>k. 2 *\<^sub>R ((h ! k) *\<^sub>R (axpy c v1 v2 ! k) -
        Vector3 (axpy1 c a0 b0 ! k) (axpy1 c a1 b1 ! k) (axpy1 c a2 b2 ! k))) [0..<n])"
    then have k: "k < n" by simp
    have V: "Vector3 (a0 ! k + c * b0 ! k) (a1 ! k + c * b1 ! k) (a2 ! k + c * b2 ! k) =
        Vector3 (a0 ! k) (a1 ! k) (a2 ! k) + c *\<^sub>R Vector3 (b0 ! k) (b1 ! k) (b2 ! k)"
      by (simp add: plus_Vector3_def scaleR_Vector3_def)
    show "map (\<lambda>k. 2 *\<^sub>R ((h ! k) *\<^sub>R (axpy c v1 v2 ! k) -
        Vector3 (axpy1 c a0 b0 ! k) (axpy1 c a1 b1 ! k) (axpy1 c a2 b2 ! k))) [0..<n] ! k =
      axpy c f1 f2 ! k"
      using k v1 v2 la lb
      by (simp add: nth_axpy nth_axpy1 f1' f2' hh V scaleR_right_distrib scaleR_right_diff_distrib
          algebra_simps)
  qed
  have "MultiplyAdmissibleFast curves H T (axpy c v1 v2) (replicate n 0, Sc) =
      Some (axpy c f1 f2, C2)"
    unfolding MultiplyAdmissibleFast_alt using hc c0 c1 c2 la lb v1 v2 rows by simp
  then show ?thesis by blast
qed

text \<open>
  Claim C7. For two fields \<open>v1\<close>, \<open>v2\<close> of \<open>n\<close> rows, a scalar \<open>c\<close> and a zero
  output: where a mode is defined on \<open>v1\<close> and on \<open>v2\<close>, it is defined on
  \<open>v1 + c * v2\<close> and yields the first result plus \<open>c\<close> times the second. This holds
  for the exact near-field product, for the direct monopole product and for the
  propagation, in every hierarchy and for every tree, whatever the scratch fields held
  before.
\<close>

theorem multiply_modes_linear:
  assumes "length v1 = n" and "length v2 = n"
  shows "(MultiplyInadmissible curves H T v1 (replicate n 0) = Some r1 \<longrightarrow>
          MultiplyInadmissible curves H T v2 (replicate n 0) = Some r2 \<longrightarrow>
          MultiplyInadmissible curves H T (axpy c v1 v2) (replicate n 0) = Some (axpy c r1 r2)) \<and>
         (MultiplyAdmissible H T v1 (replicate n 0) = Some q1 \<longrightarrow>
          MultiplyAdmissible H T v2 (replicate n 0) = Some q2 \<longrightarrow>
          MultiplyAdmissible H T (axpy c v1 v2) (replicate n 0) = Some (axpy c q1 q2)) \<and>
         (MultiplyAdmissibleFast curves H T v1 (replicate n 0, Sa) = Some (f1, Sa') \<longrightarrow>
          MultiplyAdmissibleFast curves H T v2 (replicate n 0, Sb) = Some (f2, Sb') \<longrightarrow>
          (\<exists>S'. MultiplyAdmissibleFast curves H T (axpy c v1 v2) (replicate n 0, Sc) =
                  Some (axpy c f1 f2, S')))"
proof (intro conjI impI)
  assume "MultiplyInadmissible curves H T v1 (replicate n 0) = Some r1"
    and "MultiplyInadmissible curves H T v2 (replicate n 0) = Some r2"
  then show "MultiplyInadmissible curves H T (axpy c v1 v2) (replicate n 0) = Some (axpy c r1 r2)"
    by (rule MultiplyInadmissible_linear [OF assms])
next
  assume "MultiplyAdmissible H T v1 (replicate n 0) = Some q1"
    and "MultiplyAdmissible H T v2 (replicate n 0) = Some q2"
  then show "MultiplyAdmissible H T (axpy c v1 v2) (replicate n 0) = Some (axpy c q1 q2)"
    by (rule MultiplyAdmissible_linear [OF assms])
next
  assume "MultiplyAdmissibleFast curves H T v1 (replicate n 0, Sa) = Some (f1, Sa')"
    and "MultiplyAdmissibleFast curves H T v2 (replicate n 0, Sb) = Some (f2, Sb')"
  then show "\<exists>S'. MultiplyAdmissibleFast curves H T (axpy c v1 v2) (replicate n 0, Sc) =
                  Some (axpy c f1 f2, S')"
    by (rule MultiplyAdmissibleFast_linear [OF assms])
qed

section \<open>Zero distance between centres of mass\<close>


section \<open>The worked example, evaluated\<close>

lemma norm3_x_axis: "norm3 (Vector3 x 0 0) = \<bar>x\<bar>"
  by (simp add: norm3_def)

lemma exampleH_simps:
  "exampleH 0 = exampleNode 5 [1, 2] 5 10 [0, 1, 2, 3, 4] False 0 4"
  "exampleH (Suc 0) = exampleNode 4 [3, 4, 5, 6] 3 6 [0, 1, 2, 3] False 0 1"
  "exampleH 2 = exampleNode 1 [] 8 4 [4] True 4 0"
  "exampleH 3 = exampleNode 1 [] (1/2) 1 [0] True 0 0"
  "exampleH 4 = exampleNode 1 [] 2 2 [1] True 1 0"
  "exampleH 5 = exampleNode 1 [] (7/2) 1 [2] True 2 0"
  "exampleH 6 = exampleNode 1 [] 5 2 [3] True 3 0"
  by (simp_all add: exampleH_def)

lemma example_rules:
  "ruleOf exampleH (1/2) \<lparr>cluster1 = 0, cluster2 = 0\<rparr> = Subdivided"
  "ruleOf exampleH (1/2) \<lparr>cluster1 = Suc 0, cluster2 = Suc 0\<rparr> = SmallEnough"
  "ruleOf exampleH (1/2) \<lparr>cluster1 = Suc 0, cluster2 = 2\<rparr> = Admissible"
  "ruleOf exampleH (1/2) \<lparr>cluster1 = 2, cluster2 = Suc 0\<rparr> = Admissible"
  "ruleOf exampleH (1/2) \<lparr>cluster1 = 2, cluster2 = 2\<rparr> = Singletons"
  by (simp_all add: ruleOf_def isPairAdmissible_def isPairSmallEnough_def int_plus_def
      exampleH_simps exampleNode_def fmax_def minus_Vector3_def norm3_x_axis Let_def)

lemma example_built: "newBlockClusterTree exampleH 5 0 (1/2) 2 4 0 = Some exampleT"
proof -
  let ?T0 = "\<lparr>alpha = 2, beta = 4, separationCoeff = 1/2, epsilon = 0, tree_root = 0,
           nVerts = 5, constraintsSet = False, mode = MatrixOnly,
           admissiblePairs = [], inadmissiblePairs = [],
           unresolvedPairs = [\<lparr>cluster1 = 0, cluster2 = 0\<rparr>]\<rparr> :: BlockClusterTree"
  let ?T1 = "\<lparr>alpha = 2, beta = 4, separationCoeff = 1/2, epsilon = 0, tree_root = 0,
           nVerts = 5, constraintsSet = False, mode = MatrixOnly,
           admissiblePairs = [], inadmissiblePairs = [],
           unresolvedPairs = [\<lparr>cluster1 = Suc 0, cluster2 = Suc 0\<rparr>, \<lparr>cluster1 = Suc 0, cluster2 = 2\<rparr>,
           \<lparr>cluster1 = 2, cluster2 = Suc 0\<rparr>, \<lparr>cluster1 = 2, cluster2 = 2\<rparr>]\<rparr> :: BlockClusterTree"
  have s1: "splitInadmissibleNodes exampleH ?T0 = ?T1"
    by (simp add: splitInadmissibleNodes_eq example_rules childPairs_def exampleH_simps exampleNode_def)
  have s2: "splitInadmissibleNodes exampleH ?T1 = exampleT"
    by (simp add: splitInadmissibleNodes_eq example_rules exampleT_def)
  have "resolvePairs exampleH ?T0 = resolvePairs exampleH ?T1"
    by (subst resolvePairs.simps) (simp add: s1)
  also have "\<dots> = resolvePairs exampleH exampleT"
    by (subst resolvePairs.simps) (simp add: s2)
  also have "\<dots> = Some exampleT"
    by (subst resolvePairs.simps) (simp add: exampleT_def)
  finally show ?thesis
    by (simp add: newBlockClusterTree_def exampleT_def)
qed

lemma example_fewer:
  "\<forall>p. \<forall>c \<in> set (children (exampleH p)). NumElements (exampleH c) < NumElements (exampleH p)"
  by (simp add: exampleH_def exampleNode_def)

lemma example_wf:
  "\<forall>p. 1 < NumElements (exampleH p) \<longrightarrow>
       mset (clusterIndices (exampleH p)) =
       mset (concat (map (\<lambda>c. clusterIndices (exampleH c)) (children (exampleH p))))"
  by (simp add: exampleH_def exampleNode_def)

lemma example_contract: "hierarchyContract exampleH exampleT (Suc (Suc (Suc 0)))"
  by (simp add: hierarchyContract_def exampleT_def pairsInside_def exampleH_simps exampleNode_def)

lemma example_far_defined:
  "list_all (approxDefined exampleH (beta exampleT - alpha exampleT) 5 5) (admissiblePairs exampleT)"
  by (simp add: exampleT_def approxDefined_def farDefined_def sideDefined_def exampleH_simps
      exampleNode_def)

lemma example_midpoints:
  "midpoint exampleCurve 0 = Vector3 (1/2) 0 0"
  "midpoint exampleCurve (Suc 0) = Vector3 2 0 0"
  "midpoint exampleCurve 2 = Vector3 (7/2) 0 0"
  "midpoint exampleCurve 3 = Vector3 5 0 0"
  "midpoint exampleCurve 4 = Vector3 8 0 0"
  by (simp_all add: midpoint_def exampleCurve_def plus_Vector3_def vdiv_def)

lemma example_lengths:
  "segmentLength exampleCurve 0 = 1"
  "segmentLength exampleCurve (Suc 0) = 2"
  "segmentLength exampleCurve 2 = 1"
  "segmentLength exampleCurve 3 = 2"
  "segmentLength exampleCurve 4 = 4"
  by (simp_all add: segmentLength_def exampleCurve_def minus_Vector3_def norm3_x_axis)

lemma example_neighbors:
  "isNeighbors exampleCurve (GetCurvePoint exampleCurve i) (GetCurvePoint exampleCurve j) \<longleftrightarrow>
     i = j \<or> Suc i = j \<or> i = Suc j"
  by (auto simp: isNeighbors_def exampleCurve_def)

lemma example_near_defined:
  "list_all (fullDefined exampleCurve exampleH (beta exampleT - alpha exampleT) 5 5)
     (inadmissiblePairs exampleT)"
  by (simp add: exampleT_def fullDefined_def rowDefined_def afDefined_def example_neighbors
      example_midpoints exampleH_simps exampleNode_def)

text \<open>
  Claim C9 at the example: the constructor returns; the root pair is subdivided and its
  child pair of the nodes 1 and 2 has fewer elements on both sides; the pair of node 1
  with itself has 8 elements together and is not subdivided.
\<close>

theorem constructor_terminates_witness:
  "(\<exists>T. newBlockClusterTree exampleH 5 0 (1/2) 2 4 0 = Some T \<and> unresolvedPairs T = []) \<and>
   ruleOf exampleH (1/2) \<lparr>cluster1 = 0, cluster2 = 0\<rparr> = Subdivided \<and>
   \<lparr>cluster1 = 1, cluster2 = 2\<rparr> \<in> set (childPairs exampleH \<lparr>cluster1 = 0, cluster2 = 0\<rparr>) \<and>
   NumElements (exampleH 1) < NumElements (exampleH 0) \<and>
   NumElements (exampleH 2) < NumElements (exampleH 0) \<and>
   NumElements (exampleH 1) + NumElements (exampleH 1) \<le> 8 \<and>
   ruleOf exampleH (1/2) \<lparr>cluster1 = 1, cluster2 = 1\<rparr> \<noteq> Subdivided"
proof -
  note t = constructor_terminates [OF example_fewer, of 5 0 "1/2" 2 4 0]
  have c: "\<lparr>cluster1 = 1, cluster2 = 2\<rparr> \<in> set (childPairs exampleH \<lparr>cluster1 = 0, cluster2 = 0\<rparr>)"
    by (simp add: childPairs_def exampleH_simps exampleNode_def)
  have s: "NumElements (exampleH 1) + NumElements (exampleH 1) \<le> 8"
    by (simp add: exampleH_simps exampleNode_def)
  from t [THEN conjunct2, THEN conjunct1, rule_format, OF example_rules(1) c]
  have "NumElements (exampleH 1) < NumElements (exampleH 0)"
    "NumElements (exampleH 2) < NumElements (exampleH 0)"
    by simp_all
  moreover from t [THEN conjunct2, THEN conjunct2, rule_format,
      of "\<lparr>cluster1 = 1, cluster2 = 1\<rparr>"] s
  have "ruleOf exampleH (1/2) \<lparr>cluster1 = 1, cluster2 = 1\<rparr> \<noteq> Subdivided"
    by simp
  ultimately show ?thesis
    using t [THEN conjunct1] example_rules(1) c s by simp
qed

text \<open>
  Claim C1 at the example, for the elements 0 and 4: the pair is stored once, and so it
  was not dropped.
\<close>

theorem classification_partitions_witness:
  "storedTotal exampleH exampleT 0 4 = 1 \<and> \<not> droppedAt exampleH (1/2) 0 0 4"
proof -
  have s: "storedTotal exampleH exampleT 0 4 = 1"
    by (simp add: storedTotal_def crossTotal_def crossCount_def exampleT_def exampleH_simps
        exampleNode_def)
  have d: "distinct (clusterIndices (exampleH 0))"
    and i: "0 \<in> set (clusterIndices (exampleH 0))" and j: "4 \<in> set (clusterIndices (exampleH 0))"
    by (simp_all add: exampleH_simps exampleNode_def)
  have "storedTotal exampleH exampleT 0 4 = (if droppedAt exampleH (1/2) 0 0 4 then 0 else 1)"
    by (rule classification_partitions [OF example_built example_wf d i j])
  with s have "\<not> droppedAt exampleH (1/2) 0 0 4"
    by (cases "droppedAt exampleH (1/2) 0 0 4") simp_all
  with s show ?thesis by simp
qed

lemma example_afValues:
  "afValue exampleCurve 2 0 0 = 0" "afValue exampleCurve 2 0 (Suc 0) = 0"
  "afValue exampleCurve 2 0 2 = 1/9" "afValue exampleCurve 2 0 3 = 8/81"
  by (simp_all add: afValue_def example_neighbors example_midpoints example_lengths
      minus_Vector3_def norm3_x_axis power_of_def power2_eq_square)

text \<open>
  Claim C2 at the example: row 0 of the exact product of \<open>exampleV\<close> is the value of
  the double sum computed by hand.
\<close>

theorem near_field_product_witness:
  "\<exists>b'. MultiplyInadmissible exampleCurve exampleH exampleT exampleV (replicate 5 0) = Some b' \<and>
        length b' = 5 \<and> b' ! 0 = Vector3 (2/9) (- (16/81)) (- (2/9))"
proof -
  have lv: "length exampleV = 5" by (simp add: exampleV_def)
  obtain b' where
    b': "MultiplyInadmissible exampleCurve exampleH exampleT exampleV (replicate 5 0) = Some b'"
    by (simp add: MultiplyInadmissible_eq lv example_near_defined)
  have s: "beta exampleT - alpha exampleT = 2" by (simp add: exampleT_def)
  note nf = near_field_product [OF b']
  from nf [THEN conjunct1] nf [THEN conjunct2, THEN conjunct1, rule_format, of 0]
  have "length b' = 5"
    and "b' ! 0 = replicate 5 0 ! 0 +
       (\<Sum>pair\<leftarrow>inadmissiblePairs exampleT.
          real (count_list (clusterIndices (exampleH (cluster1 pair))) 0) *\<^sub>R
            (2 *\<^sub>R ((\<Sum>j\<leftarrow>clusterIndices (exampleH (cluster2 pair)).
                       afValue exampleCurve (beta exampleT - alpha exampleT) 0 j) *\<^sub>R (exampleV ! 0) -
                   (\<Sum>j\<leftarrow>clusterIndices (exampleH (cluster2 pair)).
                      afValue exampleCurve (beta exampleT - alpha exampleT) 0 j *\<^sub>R (exampleV ! j)))))"
    by simp_all
  then have "length b' = 5 \<and> b' ! 0 = Vector3 (2/9) (- (16/81)) (- (2/9))"
    unfolding s
    by (simp add: exampleT_def exampleH_simps exampleNode_def exampleV_def example_afValues
        scaleR_Vector3_def plus_Vector3_def minus_Vector3_def zero_Vector3_def)
  with b' show ?thesis by blast
qed

lemma example_direct:
  "length v = 5 \<Longrightarrow>
   MultiplyAdmissible exampleH exampleT v (replicate 5 0) =
     Some (addRows (replicate 5 0)
       (\<lambda>k. \<Sum>pair\<leftarrow>admissiblePairs exampleT.
              approxDelta exampleH (beta exampleT - alpha exampleT) v pair k))"
  by (simp add: MultiplyAdmissible_eq example_far_defined)

lemma example_near:
  "length v = 5 \<Longrightarrow>
   MultiplyInadmissible exampleCurve exampleH exampleT v (replicate 5 0) =
     Some (addRows (replicate 5 0)
       (\<lambda>k. \<Sum>pair\<leftarrow>inadmissiblePairs exampleT.
              fullDelta exampleCurve exampleH (beta exampleT - alpha exampleT) v pair k))"
  by (simp add: MultiplyInadmissible_eq example_near_defined)

lemma example_sizes:
  "NumVertices exampleCurve = length (fullMasses (exampleH (tree_root exampleT)))"
  "length exampleV = NumVertices exampleCurve" "length exampleV = 5"
  by (simp_all add: exampleCurve_def exampleT_def exampleH_simps exampleNode_def exampleV_def)

text \<open>
  Claim C3 at the example: both realizations return the same matrix, whose row 4 is the
  value computed by hand.
\<close>

theorem MultiplyAdmissibleFast_refines_witness:
  "\<exists>r S'. MultiplyAdmissible exampleH exampleT exampleV (replicate 5 0) = Some r \<and>
          MultiplyAdmissibleFast exampleCurve exampleH exampleT exampleV (replicate 5 0, exampleS) =
            Some (r, S') \<and>
          r ! 4 = Vector3 (72/25) (- (32/25)) (8/5)"
proof -
  let ?r = "addRows (replicate 5 0)
       (\<lambda>k. \<Sum>pair\<leftarrow>admissiblePairs exampleT.
              approxDelta exampleH (beta exampleT - alpha exampleT) exampleV pair k)"
  have d: "MultiplyAdmissible exampleH exampleT exampleV (replicate (length exampleV) 0) = Some ?r"
    using example_direct [OF example_sizes(3)] by (simp add: example_sizes(3))
  have "length (replicate 5 0 :: MatrixXd) = length exampleV" by (simp add: example_sizes(3))
  from MultiplyAdmissibleFast_refines [OF example_contract example_sizes(1,2) this, THEN iffD2, OF d,
      of exampleS]
  obtain S' where "MultiplyAdmissibleFast exampleCurve exampleH exampleT exampleV (replicate 5 0, exampleS) =
            Some (?r, S')"
    by (auto simp: example_sizes(3))
  moreover have "?r ! 4 = Vector3 (72/25) (- (32/25)) (8/5)"
    by (simp add: approxDelta_def massAt_def weightedSum_def farScalar_def exampleT_def
        exampleH_simps exampleNode_def exampleV_def minus_Vector3_def norm3_x_axis power_of_def
        scaleR_Vector3_def plus_Vector3_def zero_Vector3_def)
  ultimately show ?thesis using d by (auto simp: example_sizes(3))
qed

lemma exampleW_length: "length exampleW = 5"
  by (simp add: exampleW_def)

text \<open>Claim C7 at the example, for \<open>exampleV + 3 * exampleW\<close>.\<close>

theorem multiply_modes_linear_witness:
  "MultiplyInadmissible exampleCurve exampleH exampleT (axpy 3 exampleV exampleW) (replicate 5 0) =
     Some (axpy 3
       (addRows (replicate 5 0) (\<lambda>k. \<Sum>pair\<leftarrow>inadmissiblePairs exampleT.
          fullDelta exampleCurve exampleH (beta exampleT - alpha exampleT) exampleV pair k))
       (addRows (replicate 5 0) (\<lambda>k. \<Sum>pair\<leftarrow>inadmissiblePairs exampleT.
          fullDelta exampleCurve exampleH (beta exampleT - alpha exampleT) exampleW pair k))) \<and>
   MultiplyAdmissible exampleH exampleT (axpy 3 exampleV exampleW) (replicate 5 0) =
     Some (axpy 3
       (addRows (replicate 5 0) (\<lambda>k. \<Sum>pair\<leftarrow>admissiblePairs exampleT.
          approxDelta exampleH (beta exampleT - alpha exampleT) exampleV pair k))
       (addRows (replicate 5 0) (\<lambda>k. \<Sum>pair\<leftarrow>admissiblePairs exampleT.
          approxDelta exampleH (beta exampleT - alpha exampleT) exampleW pair k))) \<and>
   (\<exists>S'. MultiplyAdmissibleFast exampleCurve exampleH exampleT (axpy 3 exampleV exampleW)
           (replicate 5 0, exampleS) =
     Some (axpy 3
       (addRows (replicate 5 0) (\<lambda>k. \<Sum>pair\<leftarrow>admissiblePairs exampleT.
          approxDelta exampleH (beta exampleT - alpha exampleT) exampleV pair k))
       (addRows (replicate 5 0) (\<lambda>k. \<Sum>pair\<leftarrow>admissiblePairs exampleT.
          approxDelta exampleH (beta exampleT - alpha exampleT) exampleW pair k)), S'))"
proof -
  let ?qV = "addRows (replicate 5 0) (\<lambda>k. \<Sum>pair\<leftarrow>admissiblePairs exampleT.
          approxDelta exampleH (beta exampleT - alpha exampleT) exampleV pair k)"
  let ?qW = "addRows (replicate 5 0) (\<lambda>k. \<Sum>pair\<leftarrow>admissiblePairs exampleT.
          approxDelta exampleH (beta exampleT - alpha exampleT) exampleW pair k)"
  have n: "5 = NumVertices exampleCurve" by (simp add: exampleCurve_def)
  obtain S1 where f1: "MultiplyAdmissibleFast exampleCurve exampleH exampleT exampleV
      (replicate 5 0, exampleS) = Some (?qV, S1)"
    using fast_refines_direct [OF example_contract example_sizes(1,2), of "replicate 5 0" ?qV exampleS]
      example_direct [OF example_sizes(3)] by (auto simp: example_sizes(3))
  obtain S2 where f2: "MultiplyAdmissibleFast exampleCurve exampleH exampleT exampleW
      (replicate 5 0, exampleS) = Some (?qW, S2)"
    using fast_refines_direct [OF example_contract example_sizes(1), of exampleW "replicate 5 0" ?qW exampleS]
      example_direct [OF exampleW_length] n by (auto simp: exampleW_length)
  note lin = multiply_modes_linear [OF example_sizes(3) exampleW_length,
      where curves = exampleCurve and H = exampleH and T = exampleT and c = 3 and Sa = exampleS
        and Sb = exampleS and Sc = exampleS and ?f1.0 = ?qV and ?f2.0 = ?qW and Sa' = S1 and Sb' = S2]
  show ?thesis
    using lin [THEN conjunct1, rule_format, OF example_near [OF example_sizes(3)] example_near [OF exampleW_length]]
      lin [THEN conjunct2, THEN conjunct1, rule_format, OF example_direct [OF example_sizes(3)] example_direct [OF exampleW_length]]
      lin [THEN conjunct2, THEN conjunct2, rule_format, OF f1 f2]
    by blast
qed

text \<open>Claim C8 at the example, for the elements 0 and 4.\<close>

theorem multiply_symmetric_witness:
  "\<exists>x out_i y out_j.
     MultiplyInadmissible exampleCurve exampleH exampleT (oneHot 5 0 exampleU) (replicate 5 0) = Some x \<and>
     MultiplyAdmissible exampleH exampleT (oneHot 5 0 exampleU) x = Some out_i \<and>
     MultiplyInadmissible exampleCurve exampleH exampleT (oneHot 5 4 exampleU) (replicate 5 0) = Some y \<and>
     MultiplyAdmissible exampleH exampleT (oneHot 5 4 exampleU) y = Some out_j \<and>
     out_i ! 4 = out_j ! 0"
proof -
  have near: "\<exists>x. MultiplyInadmissible exampleCurve exampleH exampleT (oneHot 5 k exampleU) (replicate 5 0) = Some x \<and> length x = 5" for k
    by (simp add: MultiplyInadmissible_eq example_near_defined)
  have far: "\<exists>out. MultiplyAdmissible exampleH exampleT (oneHot 5 k exampleU) x = Some out" if "length x = 5" for k x
    using that by (simp add: MultiplyAdmissible_eq example_far_defined)
  from near [of 0] obtain x where x: "MultiplyInadmissible exampleCurve exampleH exampleT (oneHot 5 0 exampleU) (replicate 5 0) = Some x" "length x = 5"
    by blast
  from far [OF x(2), of 0] obtain out_i where oi: "MultiplyAdmissible exampleH exampleT (oneHot 5 0 exampleU) x = Some out_i"
    by blast
  from near [of 4] obtain y where y: "MultiplyInadmissible exampleCurve exampleH exampleT (oneHot 5 4 exampleU) (replicate 5 0) = Some y" "length y = 5"
    by blast
  from far [OF y(2), of 4] obtain out_j where oj: "MultiplyAdmissible exampleH exampleT (oneHot 5 4 exampleU) y = Some out_j"
    by blast
  have "out_i ! 4 = out_j ! 0"
    by (rule multiply_symmetric [OF example_built _ _ _ x(1) oi y(1) oj]) simp_all
  with x(1) oi y(1) oj show ?thesis by blast
qed






end
